theory Spec2Isabelle
  imports Main "HOL-Library.Multiset"
begin

section \<open>Strings and the host values of the view\<close>

text \<open>
  The view of the plugin (class \<^verbatim>\<open>BookHighlightsView\<close>) works on JavaScript strings.
  A string is modelled as a \<open>char list\<close>: the code units below 256. Of the characters
  that \<^verbatim>\<open>String.prototype.trim\<close> and the class \<^verbatim>\<open>\s\<close> treat as white space, these are
  the ones in that range: tab, line feed, vertical tab, form feed, carriage return,
  space and the no-break space.
\<close>

definition isSpace :: "char \<Rightarrow> bool" where
  "isSpace c \<longleftrightarrow>
     c = CHR 0x09 \<or> c = CHR 0x0A \<or> c = CHR 0x0B \<or> c = CHR 0x0C \<or> c = CHR 0x0D \<or>
     c = CHR 0x20 \<or> c = CHR 0xA0"

definition isDigit :: "char \<Rightarrow> bool" where
  \<comment> \<open>the class \<^verbatim>\<open>\d\<close>\<close>
  "isDigit c \<longleftrightarrow> c \<in> set ''0123456789''"

definition isWord :: "char \<Rightarrow> bool" where
  \<comment> \<open>the class \<^verbatim>\<open>\w\<close>\<close>
  "isWord c \<longleftrightarrow>
     c \<in> set ''abcdefghijklmnopqrstuvwxyzABCDEFGHIJKLMNOPQRSTUVWXYZ0123456789_''"

definition trim :: "string \<Rightarrow> string" where
  "trim s = rev (dropWhile isSpace (rev (dropWhile isSpace s)))"

fun startsWith :: "string \<Rightarrow> string \<Rightarrow> bool" where
  \<comment> \<open>\<open>startsWith p s\<close>: the text \<open>s\<close> begins with the literal \<open>p\<close>\<close>
  "startsWith [] s = True"
| "startsWith (p # ps) [] = False"
| "startsWith (p # ps) (c # cs) = (p = c \<and> startsWith ps cs)"

text \<open>
  A regular expression without the sticky flag is tried at every start index from the
  left; the first index where it matches wins. A pattern is modelled by what it does
  at one start index: given the text from that index on, it fails or returns its result
  (captures and the text after the match). \<open>findFirst\<close> is the scan over the start
  indices, and returns the text before the match with that result.

  The same scan is the lazy quantifier \<^verbatim>\<open>[\s\S]*?\<close>: it takes no character, then one,
  and so on, until what follows it matches.
\<close>

fun findFirst :: "(string \<Rightarrow> 'a option) \<Rightarrow> string \<Rightarrow> (string \<times> 'a) option" where
  "findFirst m [] = (case m [] of None \<Rightarrow> None | Some r \<Rightarrow> Some ([], r))"
| "findFirst m (c # cs) =
     (case m (c # cs) of
        Some r \<Rightarrow> Some ([], r)
      | None \<Rightarrow> (case findFirst m cs of
                  None \<Rightarrow> None
                | Some (pre, r) \<Rightarrow> Some (c # pre, r)))"

type_synonym pattern = "string \<Rightarrow> (string \<times> string) option"
  \<comment> \<open>a pattern with one capture group, at one start index: the capture and the text
     after the match\<close>

definition reMatch :: "pattern \<Rightarrow> string \<Rightarrow> string option" where
  \<comment> \<open>\<^verbatim>\<open>s.match(regex)\<close>, read at group 1\<close>
  "reMatch m s = map_option (\<lambda>(pre, cap, rest). cap) (findFirst m s)"

definition reRemove :: "pattern \<Rightarrow> string \<Rightarrow> string" where
  \<comment> \<open>\<^verbatim>\<open>s.replace(regex, '')\<close> for a regex without the global flag\<close>
  "reRemove m s =
     (case findFirst m s of None \<Rightarrow> s | Some (pre, cap, rest) \<Rightarrow> pre @ rest)"

text \<open>
  Values decoded from YAML front matter or from JSON, and what a property of such a
  value can hold. A number is kept as the text that \<^verbatim>\<open>String(n)\<close> gives for it, which
  is all the view ever asks of a number. A mapping is the list of its own entries.
  \<open>JHost\<close> is any other object of the host, kept as the text that \<^verbatim>\<open>String\<close> gives for
  it: a date decoded from a YAML timestamp, or a function that a mapping inherits from
  its prototype.
\<close>

datatype jsval =
    JUndefined
  | JNull
  | JBool bool
  | JNum string
  | JStr string
  | JArr "jsval list"
  | JObj "(string \<times> jsval) list"
  | JHost string

fun truthy :: "jsval \<Rightarrow> bool" where
  "truthy JUndefined = False"
| "truthy JNull = False"
| "truthy (JBool b) = b"
| "truthy (JNum n) = (n \<noteq> ''0'' \<and> n \<noteq> ''NaN'')"
| "truthy (JStr s) = (s \<noteq> [])"
| "truthy (JArr xs) = True"
| "truthy (JObj kvs) = True"
| "truthy (JHost s) = True"

definition orElse :: "jsval \<Rightarrow> jsval \<Rightarrow> jsval" where
  \<comment> \<open>\<^verbatim>\<open>a || b\<close>\<close>
  "orElse a b = (if truthy a then a else b)"

section \<open>extractFrontmatter\<close>

text \<open>
  \<^verbatim>\<open>const frontmatterMatch = content.match(/^---\n([\s\S]*?)\n---/);\<close>
  The pattern has no multiline flag, so it is tried at index 0 only. After the opening
  line the lazy group ends at the first line feed that three dashes follow.
\<close>

definition fenceClose :: "string \<Rightarrow> unit option" where
  "fenceClose t = (if startsWith ''\<newline>---'' t then Some () else None)"

definition frontmatterMatch :: "string \<Rightarrow> string option" where
  "frontmatterMatch content =
     (if startsWith ''---\<newline>'' content
      then map_option fst (findFirst fenceClose (drop 4 content))
      else None)"

text \<open>
  \<^verbatim>\<open>yaml.load\<close> belongs to the js-yaml package: it is a parameter \<open>load\<close>, where
  \<open>None\<close> stands for a thrown exception. The result \<open>None\<close> of \<open>extractFrontmatter\<close> is
  the \<^verbatim>\<open>null\<close> of the source.
\<close>

definition extractFrontmatter :: "(string \<Rightarrow> jsval option) \<Rightarrow> string \<Rightarrow> jsval option" where
  "extractFrontmatter load content =
     (case frontmatterMatch content of
        None \<Rightarrow> None
      | Some block \<Rightarrow>
          (case load block of
             None \<Rightarrow> None
           | Some v \<Rightarrow> Some (orElse v (JObj []))))"

text \<open>
  The delimiter pair as the specification words it: the text starts with a line that
  holds the delimiter only, and after any number of lines there is another line that
  holds the delimiter only.
\<close>

fun splitLines :: "string \<Rightarrow> string list" where
  "splitLines [] = [[]]"
| "splitLines (c # cs) =
     (if c = CHR 0x0A then [] # splitLines cs
      else (case splitLines cs of l # ls \<Rightarrow> (c # l) # ls | [] \<Rightarrow> [[c]]))"

definition beginsWithDelimiterPair :: "string \<Rightarrow> bool" where
  "beginsWithDelimiterPair content =
     (case splitLines content of
        [] \<Rightarrow> False
      | l # ls \<Rightarrow> l = ''---'' \<and> ''---'' \<in> set ls)"

definition oneKeyYaml :: "string \<Rightarrow> jsval option" where
  \<comment> \<open>a decoder fixed at one block, for closed examples\<close>
  "oneKeyYaml block =
     (if block = ''a: 1'' then Some (JObj [(''a'', JNum ''1'')]) else None)"

section \<open>parseTitleAndAuthor\<close>

text \<open>
  \<^verbatim>\<open>s.replace(/literal/g, r)\<close> for a literal, non-empty pattern: the occurrences are
  replaced from the left, and the scan goes on after each replaced occurrence.
\<close>

function replaceAll :: "string \<Rightarrow> string \<Rightarrow> string \<Rightarrow> string" where
  "replaceAll p r s =
     (case s of
        [] \<Rightarrow> []
      | c # cs \<Rightarrow>
          if p \<noteq> [] \<and> startsWith p s then r @ replaceAll p r (drop (length p) s)
          else c # replaceAll p r cs)"
  by pat_completeness auto
termination
  by (relation "measure (\<lambda>(p, r, s). length s)") auto

declare replaceAll.simps [simp del]

text \<open>
  \<^verbatim>\<open>const basename = filename.replace(/\.(md|markdown|txt)$/i, '');\<close>
  Without the unicode flag, ignoring case pairs each letter of the pattern with its
  upper-case form only.
\<close>

definition upperOf :: "char \<Rightarrow> char" where
  "upperOf c =
     (case map_of (zip ''abcdefghijklmnopqrstuvwxyz'' ''ABCDEFGHIJKLMNOPQRSTUVWXYZ'') c of
        None \<Rightarrow> c | Some u \<Rightarrow> u)"

fun ciEq :: "string \<Rightarrow> string \<Rightarrow> bool" where
  \<comment> \<open>\<open>ciEq p t\<close>: the whole text \<open>t\<close> is the lower-case literal \<open>p\<close>, up to case\<close>
  "ciEq [] [] = True"
| "ciEq (p # ps) (c # cs) = ((c = p \<or> c = upperOf p) \<and> ciEq ps cs)"
| "ciEq _ _ = False"

definition extAt :: pattern where
  "extAt t =
     (if ciEq ''.md'' t \<or> ciEq ''.markdown'' t \<or> ciEq ''.txt'' t then Some ([], []) else None)"

text \<open>
  \<^verbatim>\<open>format.replace(/[.*+?^${}()|[\]\\]/g, '\\$&')\<close> puts a backslash before each of
  the fourteen characters of the class; the two placeholders, escaped, are then replaced
  by the group \<^verbatim>\<open>(.+)\<close>.
\<close>

definition backslash :: char where
  "backslash = CHR 0x5C"

definition escapeRegex :: "string \<Rightarrow> string" where
  "escapeRegex s =
     concat (map (\<lambda>c. if c \<in> set ''.*+?^${}()|[]'' \<or> c = backslash then [backslash, c] else [c]) s)"

definition titleEscaped :: string where
  "titleEscaped = escapeRegex ''{{title}}''"

definition authorEscaped :: string where
  "authorEscaped = escapeRegex ''{{author}}''"

text \<open>
  \<^verbatim>\<open>new RegExp(`^${pattern}$`)\<close>: the pattern text built above holds only the group
  \<^verbatim>\<open>(.+)\<close>, escaped characters and plain characters, and \<open>compile\<close> reads it as such.
  The dot matches every character but a line terminator. A group is greedy: it takes
  the longest run first and gives characters back one at a time until the rest of the
  pattern matches up to the end of the text.
\<close>

datatype tok = Lit char | Grp

function compile :: "string \<Rightarrow> tok list" where
  "compile s =
     (case s of
        [] \<Rightarrow> []
      | c # cs \<Rightarrow>
          if startsWith ''(.+)'' s then Grp # compile (drop 4 s)
          else if c = backslash then (case cs of [] \<Rightarrow> [Lit c] | d # ds \<Rightarrow> Lit d # compile ds)
          else Lit c # compile cs)"
  by pat_completeness auto
termination
  by (relation "measure length") auto

declare compile.simps [simp del]

definition dotChar :: "char \<Rightarrow> bool" where
  "dotChar c \<longleftrightarrow> c \<noteq> CHR 0x0A \<and> c \<noteq> CHR 0x0D"

fun greedy :: "(string \<Rightarrow> string list option) \<Rightarrow> string \<Rightarrow> nat \<Rightarrow> string list option" where
  \<comment> \<open>\<open>greedy k s n\<close>: the group takes \<open>n\<close> characters of \<open>s\<close>, then \<open>n - 1\<close>, down to one,
     until the continuation \<open>k\<close> matches what is left\<close>
  "greedy k s 0 = None"
| "greedy k s (Suc n) =
     (case k (drop (Suc n) s) of
        Some caps \<Rightarrow> Some (take (Suc n) s # caps)
      | None \<Rightarrow> greedy k s n)"

primrec matchToks :: "tok list \<Rightarrow> string \<Rightarrow> string list option" where
  \<comment> \<open>the anchored match: the captures of the groups, in order\<close>
  "matchToks [] = (\<lambda>s. if s = [] then Some [] else None)"
| "matchToks (t # ts) =
     (\<lambda>s. case t of
        Lit c \<Rightarrow> (case s of [] \<Rightarrow> None | d # ds \<Rightarrow> if d = c then matchToks ts ds else None)
      | Grp \<Rightarrow> greedy (matchToks ts) s (length (takeWhile dotChar s)))"

definition indexOf :: "string \<Rightarrow> string \<Rightarrow> nat option" where
  \<comment> \<open>\<^verbatim>\<open>s.indexOf(p)\<close>, with \<open>None\<close> for -1\<close>
  "indexOf s p =
     map_option (\<lambda>(pre, u). length pre)
       (findFirst (\<lambda>t. if startsWith p t then Some () else None) s)"

record parsed =
  title :: string
  pauthor :: "string option"

text \<open>
  \<open>m ! 0\<close> and \<open>m ! 1\<close> are \<^verbatim>\<open>match[1]\<close> and \<^verbatim>\<open>match[2]\<close>. The last case of the
  inner distinction is the fall through to the final \<^verbatim>\<open>return\<close> when the format holds
  no placeholder.
\<close>

definition parseTitleAndAuthor :: "string \<Rightarrow> string \<Rightarrow> parsed" where
  "parseTitleAndAuthor filenameFormat filename =
     (let basename = reRemove extAt filename;
          format = (if filenameFormat = [] then ''{{title}} by {{author}}'' else filenameFormat);
          pat = replaceAll authorEscaped ''(.+)''
                  (replaceAll titleEscaped ''(.+)'' (escapeRegex format))
      in case matchToks (compile pat) basename of
           None \<Rightarrow> \<lparr>title = basename, pauthor = None\<rparr>
         | Some m \<Rightarrow>
             (case (indexOf format ''{{title}}'', indexOf format ''{{author}}'') of
                (Some ti, Some ai) \<Rightarrow>
                  \<lparr>title = (if ti < ai then m ! 0 else m ! 1),
                   pauthor = Some (if ti < ai then m ! 1 else m ! 0)\<rparr>
              | (Some ti, None) \<Rightarrow> \<lparr>title = m ! 0, pauthor = None\<rparr>
              | (None, Some ai) \<Rightarrow> \<lparr>title = m ! 0, pauthor = None\<rparr>
              | (None, None) \<Rightarrow> \<lparr>title = basename, pauthor = None\<rparr>))"

text \<open>
  The rest of this section serves the statements about the parser. \<open>patternOf\<close> is the
  pattern text of the source; \<open>templateToks\<close> reads the format directly, a placeholder
  as a group and every other character as itself; \<open>afterTitle\<close> and \<open>afterBoth\<close> are the
  pattern text after the first and after the second placeholder replacement.
\<close>

definition special :: "char \<Rightarrow> bool" where
  "special c \<longleftrightarrow> c \<in> set ''.*+?^${}()|[]'' \<or> c = backslash"

definition unit :: "char \<Rightarrow> string" where
  \<comment> \<open>what \<open>escapeRegex\<close> writes for one character\<close>
  "unit c = (if special c then [backslash, c] else [c])"

definition titleKey :: string where
  "titleKey = ''{{title}}''"

definition authorKey :: string where
  "authorKey = ''{{author}}''"

definition patternOf :: "string \<Rightarrow> string" where
  \<comment> \<open>the pattern text that \<open>parseTitleAndAuthor\<close> builds from the format\<close>
  "patternOf format =
     replaceAll authorEscaped ''(.+)'' (replaceAll titleEscaped ''(.+)'' (escapeRegex format))"

function templateToks :: "string \<Rightarrow> tok list" where
  \<comment> \<open>the template read directly: a placeholder is a group, any other character a literal\<close>
  "templateToks s =
     (case s of
        [] \<Rightarrow> []
      | c # cs \<Rightarrow>
          if startsWith titleKey s then Grp # templateToks (drop 9 s)
          else if startsWith authorKey s then Grp # templateToks (drop 10 s)
          else Lit c # templateToks cs)"
  by pat_completeness auto
termination
  by (relation "measure length") auto

declare templateToks.simps [simp del]

function afterTitle :: "string \<Rightarrow> string" where
  "afterTitle s =
     (case s of
        [] \<Rightarrow> []
      | c # cs \<Rightarrow>
          if startsWith titleKey s then ''(.+)'' @ afterTitle (drop 9 s)
          else unit c @ afterTitle cs)"
  by pat_completeness auto
termination
  by (relation "measure length") auto

declare afterTitle.simps [simp del]

function afterBoth :: "string \<Rightarrow> string" where
  "afterBoth s =
     (case s of
        [] \<Rightarrow> []
      | c # cs \<Rightarrow>
          if startsWith titleKey s then ''(.+)'' @ afterBoth (drop 9 s)
          else if startsWith authorKey s then ''(.+)'' @ afterBoth (drop 10 s)
          else unit c @ afterBoth cs)"
  by pat_completeness auto
termination
  by (relation "measure length") auto

declare afterBoth.simps [simp del]

fun tails :: "'a list \<Rightarrow> 'a list list" where
  "tails [] = []"
| "tails (x # xs) = (x # xs) # tails xs"

definition apart :: "string \<Rightarrow> string \<Rightarrow> bool" where
  \<comment> \<open>neither text begins with the other\<close>
  "apart p q \<longleftrightarrow> \<not> startsWith p q \<and> \<not> startsWith q p"

text \<open>
  What a match is, independently of the matcher: \<open>fits ts caps s\<close> says that the captures
  \<open>caps\<close>, one non-empty run of dot characters for each group, spell the whole text \<open>s\<close>
  when put in the place of the groups. \<open>before\<close> orders two capture lists by the length
  of the first capture in which they differ.
\<close>

fun fill :: "tok list \<Rightarrow> string list \<Rightarrow> string" where
  \<comment> \<open>the text a pattern spells when its groups are given these captures\<close>
  "fill [] caps = []"
| "fill (Lit c # ts) caps = c # fill ts caps"
| "fill (Grp # ts) [] = fill ts []"
| "fill (Grp # ts) (x # caps) = x @ fill ts caps"

definition groups :: "tok list \<Rightarrow> nat" where
  "groups ts = length (filter (\<lambda>t. t = Grp) ts)"

definition capture :: "string \<Rightarrow> bool" where
  \<comment> \<open>what \<^verbatim>\<open>(.+)\<close> can capture: one or more characters, none a line terminator\<close>
  "capture x \<longleftrightarrow> x \<noteq> [] \<and> list_all dotChar x"

definition fits :: "tok list \<Rightarrow> string list \<Rightarrow> string \<Rightarrow> bool" where
  \<comment> \<open>the captures are a way to match the whole text against the pattern\<close>
  "fits ts caps s \<longleftrightarrow> length caps = groups ts \<and> list_all capture caps \<and> fill ts caps = s"

fun before :: "string list \<Rightarrow> string list \<Rightarrow> bool" where
  \<comment> \<open>at the first group where they differ, the first list has the shorter capture\<close>
  "before (x # xs) (y # ys) = (length x < length y \<or> (x = y \<and> before xs ys))"
| "before _ _ = False"

definition occursIn :: "string \<Rightarrow> string \<Rightarrow> bool" where
  "occursIn p s \<longleftrightarrow> (\<exists>pre post. s = pre @ p @ post)"

definition isExtension :: "string \<Rightarrow> bool" where
  "isExtension e \<longleftrightarrow> ciEq ''.md'' e \<or> ciEq ''.markdown'' e \<or> ciEq ''.txt'' e"

section \<open>extractHighlights\<close>

record highlight =
  bookTitle :: jsval
  author :: jsval
  date :: string
  page :: string
  location :: string
  "text" :: string
  comment :: string
  sourceFile :: string

record settings =
  filterProperty :: string
  filterValue :: string
  maxHighlights :: int
  randomHighlightsCount :: int
  filenameFormat :: string
  highlightsFolder :: string
  showBookTitle :: bool
  showAuthor :: bool
  showComments :: bool
  showMetadata :: bool

definition demoSettings :: settings where
  \<comment> \<open>the default settings of the plugin (\<^verbatim>\<open>DEFAULT_SETTINGS\<close>)\<close>
  "demoSettings =
     \<lparr>filterProperty = ''subtopic'', filterValue = ''Book Highlights'', maxHighlights = 50,
      randomHighlightsCount = 5, filenameFormat = ''{{title}} by {{author}}'',
      highlightsFolder = [], showBookTitle = True, showAuthor = True, showComments = True,
      showMetadata = True\<rparr>"

text \<open>
  The four patterns of \<^verbatim>\<open>metadataPatterns\<close>, each at one start index:
  \<^verbatim>\<open>/Highlighted: ([^\n]+)/\<close>, \<^verbatim>\<open>/Page(?: Number)?: (\d+)/\<close>, \<^verbatim>\<open>/Location: (\d+)/\<close> and
  \<^verbatim>\<open>/My Comments:([\s\S]*?)(?=\n\w+:|$)/\<close>.
\<close>

definition notLF :: "char \<Rightarrow> bool" where
  "notLF c \<longleftrightarrow> c \<noteq> CHR 0x0A"

definition dateAt :: pattern where
  "dateAt t =
     (if startsWith ''Highlighted: '' t
      then (let r = drop 13 t; v = takeWhile notLF r
            in if v = [] then None else Some (v, dropWhile notLF r))
      else None)"

definition numberTail :: pattern where
  \<comment> \<open>\<^verbatim>\<open>: (\d+)\<close>\<close>
  "numberTail r =
     (if startsWith '': '' r
      then (let d = takeWhile isDigit (drop 2 r)
            in if d = [] then None else Some (d, dropWhile isDigit (drop 2 r)))
      else None)"

definition pageAt :: pattern where
  "pageAt t =
     (if startsWith ''Page'' t
      then (let r = drop 4 t
            in case (if startsWith '' Number'' r then numberTail (drop 7 r) else None) of
                 Some x \<Rightarrow> Some x
               | None \<Rightarrow> numberTail r)
      else None)"

definition locationAt :: pattern where
  "locationAt t = (if startsWith ''Location'' t then numberTail (drop 8 t) else None)"

definition labelLine :: "string \<Rightarrow> bool" where
  \<comment> \<open>the lookahead \<^verbatim>\<open>\n\w+:\<close>\<close>
  "labelLine u =
     (case u of
        [] \<Rightarrow> False
      | c # v \<Rightarrow> c = CHR 0x0A \<and> takeWhile isWord v \<noteq> [] \<and> startsWith '':'' (dropWhile isWord v))"

definition commentEnd :: "string \<Rightarrow> string option" where
  "commentEnd u = (if u = [] \<or> labelLine u then Some u else None)"

definition commentAt :: pattern where
  "commentAt t =
     (if startsWith ''My Comments:'' t then findFirst commentEnd (drop 12 t) else None)"

datatype target = TDate | TPage | TLocation | TComment

definition metadataPatterns :: "(pattern \<times> target) list" where
  "metadataPatterns =
     [(dateAt, TDate), (pageAt, TPage), (locationAt, TLocation), (commentAt, TComment)]"

text \<open>
  The working variables of one block. One round of the loop over \<^verbatim>\<open>metadataPatterns\<close>:
  \<^verbatim>\<open>const match = calloutContent.match(regex)\<close> reads the block as cleaned, and on a match
  \<^verbatim>\<open>text = text.replace(regex, '').trim()\<close> rewrites the working text.
\<close>

record fields =
  fdate :: string
  fpage :: string
  flocation :: string
  ftext :: string
  fcomment :: string

definition applyRule :: "string \<Rightarrow> fields \<Rightarrow> pattern \<times> target \<Rightarrow> fields" where
  "applyRule calloutContent st rule =
     (case reMatch (fst rule) calloutContent of
        None \<Rightarrow> st
      | Some cap \<Rightarrow>
          (case snd rule of
             TComment \<Rightarrow> st\<lparr>fcomment := trim cap, ftext := trim (reRemove (fst rule) (ftext st))\<rparr>
           | TDate \<Rightarrow> st\<lparr>fdate := trim cap, ftext := trim (reRemove (fst rule) (ftext st))\<rparr>
           | TPage \<Rightarrow> st\<lparr>fpage := trim cap, ftext := trim (reRemove (fst rule) (ftext st))\<rparr>
           | TLocation \<Rightarrow>
               st\<lparr>flocation := trim cap, ftext := trim (reRemove (fst rule) (ftext st))\<rparr>))"

definition refSuffixAt :: pattern where
  \<comment> \<open>\<^verbatim>\<open>/\s*\^ref-\d+$/\<close>\<close>
  "refSuffixAt t =
     (let u = dropWhile isSpace t
      in if startsWith ''^ref-'' u \<and> drop 5 u \<noteq> [] \<and> list_all isDigit (drop 5 u)
         then Some ([], []) else None)"

definition cleanText :: "string \<Rightarrow> string" where
  "cleanText t = trim (reRemove refSuffixAt (if startsWith ''Link: '' t then drop 6 t else t))"

definition initialFields :: "string \<Rightarrow> fields" where
  "initialFields calloutContent =
     \<lparr>fdate = [], fpage = [], flocation = [], ftext = calloutContent, fcomment = []\<rparr>"

definition extractFields :: "string \<Rightarrow> fields" where
  "extractFields calloutContent =
     (let st = foldl (applyRule calloutContent) (initialFields calloutContent) metadataPatterns
      in st\<lparr>ftext := cleanText (ftext st)\<rparr>)"







text \<open>
  \<^verbatim>\<open>const calloutRegex = /> \[!([^\]]+)\]([\s\S]*?)(?=\n\n|\n> \[!|$)/g;\<close>
  At one start index: the introducer, a tag up to the first closing bracket, and the
  shortest body that a blank line, the next introducer or the end of the text follows.
  The result is the tag, the body and the text from the end of the match on, where the
  next \<^verbatim>\<open>exec\<close> resumes.
\<close>

definition calloutStop :: "string \<Rightarrow> string option" where
  "calloutStop t =
     (if t = [] \<or> startsWith ''\<newline>\<newline>'' t \<or> startsWith ''\<newline>> [!'' t then Some t else None)"

definition notBracket :: "char \<Rightarrow> bool" where
  "notBracket c \<longleftrightarrow> c \<noteq> CHR '']''"

definition calloutAt :: "string \<Rightarrow> (string \<times> string \<times> string) option" where
  "calloutAt t =
     (if startsWith ''> [!'' t
      then (let r = drop 4 t; ty = takeWhile notBracket r
            in if ty = [] then None
               else (case dropWhile notBracket r of
                       [] \<Rightarrow> None
                     | b # after \<Rightarrow>
                         (case findFirst calloutStop after of
                            None \<Rightarrow> None
                          | Some (body, rest) \<Rightarrow> Some (ty, body, rest))))
      else None)"

definition cleanCallout :: "string \<Rightarrow> string" where
  \<comment> \<open>\<^verbatim>\<open>.replace(/^\n> /, '').replace(/\n> /g, '\n').trim()\<close>\<close>
  "cleanCallout body =
     trim (replaceAll ''\<newline>> '' ''\<newline>''
             (if startsWith ''\<newline>> '' body then drop 3 body else body))"

definition lastSegment :: "string \<Rightarrow> string" where
  \<comment> \<open>\<^verbatim>\<open>filePath.split('/').pop() || ''\<close>\<close>
  "lastSegment p = rev (takeWhile (\<lambda>c. c \<noteq> CHR ''/'') (rev p))"

definition getProp :: "jsval \<Rightarrow> string \<Rightarrow> jsval" where
  \<comment> \<open>\<^verbatim>\<open>frontmatter.title\<close> and \<^verbatim>\<open>frontmatter.author\<close>: an own entry of a mapping. No
     prototype of the host holds a member of either name, so nothing is inherited, and a
     value that is not a mapping gives \<^verbatim>\<open>undefined\<close>. The property that the filter
     reads can bear any name and is read with \<open>readProperty\<close> below.\<close>
  "getProp v k =
     (case v of
        JObj kvs \<Rightarrow> (case map_of kvs k of None \<Rightarrow> JUndefined | Some x \<Rightarrow> x)
      | _ \<Rightarrow> JUndefined)"

definition blockHighlight :: "settings \<Rightarrow> string \<Rightarrow> jsval \<Rightarrow> string \<Rightarrow> highlight list" where
  \<comment> \<open>the body of the \<^verbatim>\<open>while\<close> loop: what one match pushes\<close>
  "blockHighlight st filePath frontmatter body =
     (let f = extractFields (cleanCallout body);
          pa = parseTitleAndAuthor (filenameFormat st) (lastSegment filePath)
      in if ftext f \<noteq> []
         then [\<lparr>bookTitle = orElse (orElse (getProp frontmatter ''title'') (JStr (title pa)))
                               (JStr ''Unknown Book''),
                author = orElse (orElse (getProp frontmatter ''author'')
                                   (case pauthor pa of None \<Rightarrow> JNull | Some a \<Rightarrow> JStr a))
                           JNull,
                date = fdate f, page = fpage f, location = flocation f,
                text = ftext f, comment = fcomment f, sourceFile = filePath\<rparr>]
         else [])"

lemma findFirst_Some_split:
  "findFirst m s = Some (pre, r) \<Longrightarrow> \<exists>t. s = pre @ t \<and> m t = Some r"
proof (induction s arbitrary: pre)
  case Nil
  then show ?case by (auto split: option.splits)
next
  case (Cons c cs)
  show ?case
  proof (cases "m (c # cs)")
    case (Some r')
    with Cons.prems show ?thesis by auto
  next
    case None
    with Cons.prems obtain pre' where f: "findFirst m cs = Some (pre', r)" and p: "pre = c # pre'"
      by (auto split: option.splits)
    from Cons.IH [OF f] obtain t where "cs = pre' @ t" "m t = Some r" by blast
    with p show ?thesis by auto
  qed
qed

lemma calloutStop_Some: "calloutStop t = Some u \<Longrightarrow> u = t"
  by (auto simp: calloutStop_def split: if_splits)

lemma calloutAt_shorter:
  assumes "calloutAt t = Some (ty, body, rest)"
  shows "length rest < length t"
proof -
  from assms have sw: "startsWith ''> [!'' t"
    by (auto simp: calloutAt_def split: if_splits)
  from assms sw obtain b after where dw: "dropWhile notBracket (drop 4 t) = b # after"
      and ff: "findFirst calloutStop after = Some (body, rest)"
    by (auto simp: calloutAt_def Let_def split: if_splits list.splits option.splits)
  from findFirst_Some_split [OF ff] obtain u where "after = body @ u" "calloutStop u = Some rest"
    by blast
  then have "length rest \<le> length after" using calloutStop_Some by fastforce
  also have "length after < length (dropWhile notBracket (drop 4 t))" using dw by simp
  also have "\<dots> \<le> length (drop 4 t)" by (rule length_dropWhile_le)
  also have "\<dots> \<le> length t" by simp
  finally show ?thesis .
qed

text \<open>
  \<^verbatim>\<open>while ((match = calloutRegex.exec(content)) !== null)\<close>: each round searches from
  where the last match ended. Every match is at least the introducer and a tag, so the
  text left to search gets shorter and the loop ends.
\<close>

function extractFrom :: "settings \<Rightarrow> string \<Rightarrow> jsval \<Rightarrow> string \<Rightarrow> highlight list" where
  "extractFrom st filePath frontmatter s =
     (case findFirst calloutAt s of
        None \<Rightarrow> []
      | Some r \<Rightarrow>
          blockHighlight st filePath frontmatter (fst (snd (snd r)))
            @ extractFrom st filePath frontmatter (snd (snd (snd r))))"
  by pat_completeness auto
termination
proof (relation "measure (\<lambda>(st, p, fm, s). length s)")
  show "wf (measure (\<lambda>(st :: settings, p :: string, fm :: jsval, s :: string). length s))"
    by simp
next
  fix st :: settings and filePath :: string and frontmatter :: jsval and s :: string
    and r :: "string \<times> string \<times> string \<times> string"
  assume ff: "findFirst calloutAt s = Some r"
  obtain pre ty body rest where r: "r = (pre, ty, body, rest)" by (cases r) auto
  from findFirst_Some_split [of calloutAt s pre "(ty, body, rest)"] ff r obtain t
    where "s = pre @ t" "calloutAt t = Some (ty, body, rest)" by blast
  with calloutAt_shorter have "length rest < length s" by fastforce
  with r show "((st, filePath, frontmatter, snd (snd (snd r))), (st, filePath, frontmatter, s))
      \<in> measure (\<lambda>(st, p, fm, s). length s)"
    by simp
qed

declare extractFrom.simps [simp del]

definition extractHighlights :: "settings \<Rightarrow> string \<Rightarrow> string \<Rightarrow> jsval \<Rightarrow> highlight list" where
  "extractHighlights st content filePath frontmatter = extractFrom st filePath frontmatter content"



















section \<open>refreshHighlights: the filter and the scan\<close>

text \<open>
  \<^verbatim>\<open>String(v)\<close> on these values, and the conversion of a template literal, which is
  the same. \<open>None\<close> stands for the \<^verbatim>\<open>TypeError\<close> that the conversion throws. An array
  joins its elements with commas, an empty text standing for \<^verbatim>\<open>null\<close> and
  \<^verbatim>\<open>undefined\<close>, and throws when the conversion of an element does. A mapping prints
  as \<^verbatim>\<open>[object Object]\<close> through the \<^verbatim>\<open>toString\<close> that it inherits; when it has an own
  entry \<^verbatim>\<open>toString\<close>, that entry is decoded data and cannot be called, the
  \<^verbatim>\<open>valueOf\<close> tried next gives no primitive value either, and the conversion throws.
\<close>

definition joinWith :: "string \<Rightarrow> string list \<Rightarrow> string" where
  "joinWith sep xs = (case xs of [] \<Rightarrow> [] | y # ys \<Rightarrow> foldl (\<lambda>acc z. acc @ sep @ z) y ys)"

fun toStr :: "jsval \<Rightarrow> string option" where
  "toStr JUndefined = Some ''undefined''"
| "toStr JNull = Some ''null''"
| "toStr (JBool b) = Some (if b then ''true'' else ''false'')"
| "toStr (JNum n) = Some n"
| "toStr (JStr s) = Some s"
| "toStr (JHost s) = Some s"
| "toStr (JArr xs) =
     map_option (joinWith '','')
       (those (map (\<lambda>x. if x = JNull \<or> x = JUndefined then Some [] else toStr x) xs))"
| "toStr (JObj kvs) =
     (if ''toString'' \<in> set (map fst kvs) then None else Some ''[object Object]'')"

text \<open>
  What the host gives the view. \<^verbatim>\<open>yaml.load\<close> and \<^verbatim>\<open>JSON.parse\<close> return \<open>None\<close> when
  they throw; \<open>getMarkdownFiles\<close> is \<open>None\<close> when listing the vault throws.
  \<open>inherited h v k\<close> is what the host gives for \<^verbatim>\<open>v[k]\<close> when \<open>k\<close> is not an own entry of
  a mapping \<open>v\<close>: a member of a prototype, an index or the length of a string or a list,
  and \<^verbatim>\<open>undefined\<close> when there is none. \<open>hostSort\<close> is the host's
  \<^verbatim>\<open>sort(() => 0.5 - Math.random())\<close> in one pass: the order it leaves an array in.
  \<open>createEl h e\<close> tells whether the host's \<^verbatim>\<open>createEl\<close> returns for an element \<open>e\<close> of
  the container; it throws otherwise, and then no element is added. A file carries the
  outcome of \<^verbatim>\<open>await this.app.vault.read(file)\<close>, \<open>None\<close> when the read is rejected.
\<close>

record tfile =
  path :: string
  readResult :: "string option"

datatype caption = NoText | Caption jsval | Separator

record element =
  depth :: nat
  tagName :: string
  cls :: string
  caption :: caption

record host =
  yamlLoad :: "string \<Rightarrow> jsval option"
  jsonParse :: "string \<Rightarrow> jsval option"
  getMarkdownFiles :: "tfile list option"
  inherited :: "jsval \<Rightarrow> string \<Rightarrow> jsval"
  hostSort :: "highlight list \<Rightarrow> highlight list"
  createEl :: "element \<Rightarrow> bool"

text \<open>
  \<^verbatim>\<open>const propertyValue = frontmatter[filterProperty];\<close>
\<close>

definition readProperty :: "host \<Rightarrow> jsval \<Rightarrow> string \<Rightarrow> jsval" where
  "readProperty h v k =
     (case v of
        JObj kvs \<Rightarrow> (case map_of kvs k of None \<Rightarrow> inherited h v k | Some x \<Rightarrow> x)
      | _ \<Rightarrow> inherited h v k)"

text \<open>
  \<^verbatim>\<open>items.some(item => String(item).trim() === String(filterValue).trim())\<close>: the
  elements are converted from the left, the first that equals the target ends the
  search, and a conversion that throws before that ends it with the exception.
\<close>

fun someMatches :: "jsval list \<Rightarrow> string \<Rightarrow> bool option" where
  "someMatches [] target = Some False"
| "someMatches (item # items) target =
     (case toStr item of
        None \<Rightarrow> None
      | Some s \<Rightarrow> if trim s = trim target then Some True else someMatches items target)"

text \<open>
  The value of \<^verbatim>\<open>matches\<close>, or \<open>None\<close> when the evaluation throws. In the branch for
  strings the inner \<^verbatim>\<open>try\<close> holds both \<^verbatim>\<open>JSON.parse\<close> and the search in the parsed
  array, so that an exception of either falls to the comparison of the string itself.
\<close>

definition filterMatches :: "host \<Rightarrow> jsval \<Rightarrow> string \<Rightarrow> string \<Rightarrow> bool option" where
  "filterMatches h frontmatter prop target =
     (case readProperty h frontmatter prop of
        JUndefined \<Rightarrow> Some False
      | JArr items \<Rightarrow> someMatches items target
      | JStr s \<Rightarrow>
          (case jsonParse h s of
             Some (JArr items) \<Rightarrow>
               (case someMatches items target of
                  None \<Rightarrow> Some (trim s = trim target)
                | Some b \<Rightarrow> Some b)
           | Some other \<Rightarrow> Some (trim s = trim target)
           | None \<Rightarrow> Some (trim s = trim target))
      | other \<Rightarrow> map_option (\<lambda>t. trim t = trim target) (toStr other))"

definition passesFilter :: "host \<Rightarrow> settings \<Rightarrow> jsval \<Rightarrow> bool" where
  \<comment> \<open>\<^verbatim>\<open>if (filterProperty && filterValue) { ... if (!matches) continue; }\<close>: the round
     goes on to \<^verbatim>\<open>extractHighlights\<close>. An exception of the filter is caught by the
     \<^verbatim>\<open>try\<close> of the round, which ends the round as well.\<close>
  "passesFilter h st frontmatter =
     (if filterProperty st \<noteq> [] \<and> filterValue st \<noteq> []
      then filterMatches h frontmatter (filterProperty st) (filterValue st) = Some True
      else True)"

text \<open>
  The loop over the files. Its state is the local array \<^verbatim>\<open>highlights\<close> (\<open>pool\<close>), the
  two counters of the source, and \<open>extracted\<close>: the paths logged by
  \<^verbatim>\<open>console.log(`Processing file: ...`)\<close>, which are the documents handed to
  \<^verbatim>\<open>extractHighlights\<close>. A rejected read is caught by the inner \<^verbatim>\<open>try\<close> and the loop
  goes on; reaching the cap truncates the array and leaves the loop.
\<close>

record scanState =
  pool :: "highlight list"
  processedFiles :: nat
  matchedFilterCount :: nat
  extracted :: "string list"

fun scanFiles :: "host \<Rightarrow> settings \<Rightarrow> tfile list \<Rightarrow> scanState \<Rightarrow> scanState" where
  "scanFiles h st [] s = s"
| "scanFiles h st (f # fs) s =
     (let s0 = s\<lparr>processedFiles := Suc (processedFiles s)\<rparr>
      in case readResult f of
           None \<Rightarrow> scanFiles h st fs s0
         | Some content \<Rightarrow>
             (case extractFrontmatter (yamlLoad h) content of
                None \<Rightarrow> scanFiles h st fs s0
              | Some frontmatter \<Rightarrow>
                  if \<not> passesFilter h st frontmatter then scanFiles h st fs s0
                  else
                    (let bookHighlights = extractHighlights st content (path f) frontmatter;
                         s1 = s0\<lparr>extracted := extracted s0 @ [path f]\<rparr>;
                         s2 = (if bookHighlights \<noteq> []
                               then s1\<lparr>pool := pool s1 @ bookHighlights,
                                       matchedFilterCount := Suc (matchedFilterCount s1)\<rparr>
                               else s1)
                      in if maxHighlights st > 0 \<and> int (length (pool s2)) \<ge> maxHighlights st
                         then s2\<lparr>pool := take (nat (maxHighlights st)) (pool s2)\<rparr>
                         else scanFiles h st fs s2)))"

definition scanStart :: scanState where
  "scanStart = \<lparr>pool = [], processedFiles = 0, matchedFilterCount = 0, extracted = []\<rparr>"

text \<open>Auxiliary notions for the statements about the loop, and a small vault.\<close>

definition fileHighlights :: "host \<Rightarrow> settings \<Rightarrow> tfile \<Rightarrow> highlight list" where
  \<comment> \<open>what one file adds to the pool\<close>
  "fileHighlights h st f =
     (case readResult f of
        None \<Rightarrow> []
      | Some content \<Rightarrow>
          (case extractFrontmatter (yamlLoad h) content of
             None \<Rightarrow> []
           | Some frontmatter \<Rightarrow>
               if passesFilter h st frontmatter
               then extractHighlights st content (path f) frontmatter else []))"

definition hasFrontmatter :: "host \<Rightarrow> tfile \<Rightarrow> bool" where
  \<comment> \<open>the read succeeds and \<open>extractFrontmatter\<close> does not return \<^verbatim>\<open>null\<close>\<close>
  "hasFrontmatter h f =
     (case readResult f of
        None \<Rightarrow> False
      | Some content \<Rightarrow> extractFrontmatter (yamlLoad h) content \<noteq> None)"

definition fileSkipped :: "host \<Rightarrow> settings \<Rightarrow> tfile \<Rightarrow> bool" where
  \<comment> \<open>the file ends its round of the loop before \<open>extractHighlights\<close> is called\<close>
  "fileSkipped h st f =
     (case readResult f of
        None \<Rightarrow> True
      | Some content \<Rightarrow>
          (case extractFrontmatter (yamlLoad h) content of
             None \<Rightarrow> True
           | Some frontmatter \<Rightarrow> \<not> passesFilter h st frontmatter))"

definition demoHost :: host where
  \<comment> \<open>a host for closed examples: nothing is inherited, the sort leaves the order as it
     is, and every element can be created\<close>
  "demoHost =
     \<lparr>yamlLoad = oneKeyYaml, jsonParse = (\<lambda>s. None), getMarkdownFiles = None,
      inherited = (\<lambda>v k. JUndefined), hostSort = (\<lambda>xs. xs), createEl = (\<lambda>e. True)\<rparr>"

definition quoteFile :: "string \<Rightarrow> nat \<Rightarrow> tfile" where
  \<comment> \<open>a note with front matter and \<open>n\<close> annotation blocks\<close>
  "quoteFile p n =
     \<lparr>path = p,
      readResult = Some (''---\<newline>a: 1\<newline>---\<newline>'' @ concat (replicate n ''\<newline>\<newline>> [!quote] q''))\<rparr>"

declare scanFiles.simps(2) [simp del]

definition afterFile :: "settings \<Rightarrow> tfile \<Rightarrow> highlight list \<Rightarrow> scanState \<Rightarrow> scanState" where
  \<comment> \<open>the loop state after a file that gave \<open>bh\<close> to the pool, before the cap is looked at\<close>
  "afterFile st f bh s =
     (if bh \<noteq> []
      then s\<lparr>processedFiles := Suc (processedFiles s), extracted := extracted s @ [path f],
             pool := pool s @ bh, matchedFilterCount := Suc (matchedFilterCount s)\<rparr>
      else s\<lparr>processedFiles := Suc (processedFiles s), extracted := extracted s @ [path f]\<rparr>)"

definition corpus :: "tfile list" where
  "corpus = [quoteFile ''a.md'' 10, quoteFile ''b.md'' 10, quoteFile ''c.md'' 10]"

definition noFilter :: settings where
  "noFilter = demoSettings\<lparr>filterProperty := []\<rparr>"

definition otherJson :: string where
  \<comment> \<open>the JSON text \<^verbatim>\<open>["Other"]\<close>\<close>
  "otherJson = ''['' @ [CHR 0x22] @ ''Other'' @ [CHR 0x22] @ '']''"

definition otherHost :: host where
  \<comment> \<open>a host whose \<^verbatim>\<open>JSON.parse\<close> is known at that one text\<close>
  "otherHost =
     demoHost\<lparr>jsonParse := (\<lambda>s. if s = otherJson then Some (JArr [JStr ''Other'']) else None)\<rparr>"

definition inFolder :: "settings \<Rightarrow> tfile list \<Rightarrow> tfile list" where
  "inFolder st files =
     (if highlightsFolder st \<noteq> []
      then (let folder = highlightsFolder st;
                folderPath = (if last folder = CHR ''/'' then folder else folder @ ''/'')
            in filter (\<lambda>f. startsWith folderPath (path f)) files)
      else files)"


text \<open>
  Two values for closed examples of the filter: a host whose mappings inherit
  \<^verbatim>\<open>constructor\<close> from \<^verbatim>\<open>Object.prototype\<close>, as the mappings that \<^verbatim>\<open>yaml.load\<close> returns
  do, and a list whose first element is a mapping with an entry \<^verbatim>\<open>toString\<close>.
\<close>

definition protoHost :: host where
  "protoHost =
     demoHost\<lparr>inherited :=
       (\<lambda>v k. case v of
                 JObj kvs \<Rightarrow>
                   if k = ''constructor'' then JHost ''function Object() { [native code] }''
                   else JUndefined
               | _ \<Rightarrow> JUndefined)\<rparr>"

definition oddList :: jsval where
  "oddList = JArr [JObj [(''toString'', JNum ''1'')], JStr ''Book Highlights'']"

section \<open>getRandomHighlights\<close>

text \<open>
  Arrays live in a store, since the sampler sorts an array in place: an address holds
  the elements of one array, and \<open>nextAddr\<close> is the first address not yet in use.
  \<open>sortRandom\<close> is the host's \<^verbatim>\<open>sort(() => 0.5 - Math.random())\<close>: whatever order it
  leaves the array in.
\<close>

record store =
  arrays :: "nat \<Rightarrow> highlight list"
  nextAddr :: nat

definition alloc :: "store \<Rightarrow> highlight list \<Rightarrow> nat \<times> store" where
  "alloc s xs = (nextAddr s, s\<lparr>arrays := (arrays s)(nextAddr s := xs), nextAddr := Suc (nextAddr s)\<rparr>)"

definition slice0 :: "'a list \<Rightarrow> int \<Rightarrow> 'a list" where
  \<comment> \<open>\<^verbatim>\<open>xs.slice(0, n)\<close>: a negative end counts from the end of the array\<close>
  "slice0 xs n = (if n < 0 then take (nat (int (length xs) + n)) xs else take (nat n) xs)"

definition getRandomHighlights ::
  "(highlight list \<Rightarrow> highlight list) \<Rightarrow> settings \<Rightarrow> nat \<Rightarrow> store \<Rightarrow> nat \<times> store" where
  "getRandomHighlights sortRandom st this_highlights s =
     (if length (arrays s this_highlights) = 0 then alloc s []
      else
        (let count = min (randomHighlightsCount st) (int (length (arrays s this_highlights)));
             (shuffled, s1) = alloc s (arrays s this_highlights);
             s2 = s1\<lparr>arrays := (arrays s1)(shuffled := sortRandom (arrays s1 shuffled))\<rparr>
         in alloc s2 (slice0 (arrays s2 shuffled) count)))"

definition threePool :: "highlight list" where
  "threePool =
     extractHighlights demoSettings ''> [!quote] one\<newline>> [!quote] two\<newline>> [!quote] three''
       ''n.md'' (JObj [])"

definition poolStore :: store where
  "poolStore = \<lparr>arrays = (\<lambda>a. if a = 0 then threePool else []), nextAddr = 1\<rparr>"

text \<open>
  The sampler on a store that holds the pool at address \<open>0\<close> and nothing else:
  \<open>sampleOf\<close> is the array that it returns.
\<close>

definition storeOf :: "highlight list \<Rightarrow> store" where
  "storeOf hpool = \<lparr>arrays = (\<lambda>a. if a = 0 then hpool else []), nextAddr = 1\<rparr>"

definition sampleOf ::
  "(highlight list \<Rightarrow> highlight list) \<Rightarrow> settings \<Rightarrow> highlight list \<Rightarrow> highlight list" where
  "sampleOf sortRandom st hpool =
     arrays (snd (getRandomHighlights sortRandom st 0 (storeOf hpool)))
       (fst (getRandomHighlights sortRandom st 0 (storeOf hpool)))"

text \<open>
  The randomness of the sampler. The comparator \<^verbatim>\<open>() => 0.5 - Math.random()\<close> does not
  look at its arguments: each call draws one number from \<^verbatim>\<open>Math.random\<close> and returns one
  half minus that number, and a sort decides on the sign of what a comparator returns;
  \<open>sgn\<close> is that sign. The sort itself is the host's. Run on one array with this
  comparator it is a \<open>sorter\<close>: it returns an order, or it calls the comparator and goes
  on in one of three ways, by the sign. \<open>runSort t random i\<close> runs the sorter \<open>t\<close> when
  \<open>random j\<close> is the sign that the comparator returns at its call number \<open>j\<close>, and \<open>i\<close>
  calls have been made; \<open>calls\<close> is the largest number of calls that a sorter makes.
\<close>

datatype sgn = Negative | Zero | Positive

datatype 'a sorter = Return "'a list" | Call "'a sorter" "'a sorter" "'a sorter"

fun runSort :: "'a sorter \<Rightarrow> (nat \<Rightarrow> sgn) \<Rightarrow> nat \<Rightarrow> 'a list" where
  "runSort (Return ys) random i = ys"
| "runSort (Call n z p) random i =
     (case random i of
        Negative \<Rightarrow> runSort n random (Suc i)
      | Zero \<Rightarrow> runSort z random (Suc i)
      | Positive \<Rightarrow> runSort p random (Suc i))"

fun calls :: "'a sorter \<Rightarrow> nat" where
  "calls (Return ys) = 0"
| "calls (Call n z p) = Suc (max (calls n) (max (calls z) (calls p)))"

fun fewestCalls :: "'a sorter \<Rightarrow> nat" where
  "fewestCalls (Return ys) = 0"
| "fewestCalls (Call n z p) = Suc (min (fewestCalls n) (min (fewestCalls z) (fewestCalls p)))"

text \<open>
  The sort of the host on which the view runs. The desktop application of Obsidian is
  built on Electron, whose engine is V8, and V8's \<^verbatim>\<open>Array.prototype.sort\<close>
  (\<^verbatim>\<open>third_party/v8/builtins/array-sort.tq\<close>) treats an array of fewer than 64
  elements as one run. \<^verbatim>\<open>CountAndMakeRun\<close> compares the second element
  with the first: a negative result starts a descending run, any other an ascending
  one. It then compares each further element with the one before it, as long as a
  descending run goes on with a negative result and an ascending run with another;
  a descending run is reversed in place. \<^verbatim>\<open>BinaryInsertionSort\<close> puts each element
  after the run into the sorted part before it, at the place that a binary search
  finds: a negative result of comparing the element with the middle one sends the
  search to the left half, any other to the right of the middle.

  \<open>countRun d r m k\<close>: the run is descending or not, has \<open>r\<close> elements, \<open>m\<close> elements
  have not been looked at, and \<open>k\<close> goes on with the length of the run.
  \<open>insertionPoint left right k\<close> is the binary search.
\<close>

fun countRun :: "bool \<Rightarrow> nat \<Rightarrow> nat \<Rightarrow> (nat \<Rightarrow> 'a sorter) \<Rightarrow> 'a sorter" where
  "countRun descending runLength 0 k = k runLength"
| "countRun descending runLength (Suc m) k =
     (if descending
      then Call (countRun descending (Suc runLength) m k) (k runLength) (k runLength)
      else Call (k runLength) (countRun descending (Suc runLength) m k)
             (countRun descending (Suc runLength) m k))"

function insertionPoint :: "nat \<Rightarrow> nat \<Rightarrow> (nat \<Rightarrow> 'a sorter) \<Rightarrow> 'a sorter" where
  "insertionPoint left right k =
     (if left < right
      then Call (insertionPoint left (left + (right - left) div 2) k)
             (insertionPoint (Suc (left + (right - left) div 2)) right k)
             (insertionPoint (Suc (left + (right - left) div 2)) right k)
      else k left)"
  by pat_completeness auto
termination
  by (relation "measure (\<lambda>(left, right, k). right - left)") auto

declare insertionPoint.simps [simp del]

fun binaryInsertion :: "nat \<Rightarrow> 'a list \<Rightarrow> nat \<Rightarrow> 'a sorter" where
  \<comment> \<open>\<open>binaryInsertion n work start\<close>: the \<open>n\<close> elements from index \<open>start\<close> on are still to
     be inserted\<close>
  "binaryInsertion 0 work start = Return work"
| "binaryInsertion (Suc n) work start =
     insertionPoint 0 start
       (\<lambda>left. binaryInsertion n
          (take left work @ work ! start # drop left (take start work) @ drop (Suc start) work)
          (Suc start))"

definition afterRun :: "'a list \<Rightarrow> bool \<Rightarrow> nat \<Rightarrow> 'a sorter" where
  "afterRun xs descending runLength =
     binaryInsertion (length xs - runLength)
       (if descending then rev (take runLength xs) @ drop runLength xs else xs) runLength"

definition v8Sort :: "'a list \<Rightarrow> 'a sorter" where
  "v8Sort xs =
     (if length xs < 2 then Return xs
      else Call (countRun True 2 (length xs - 2) (afterRun xs True))
             (countRun False 2 (length xs - 2) (afterRun xs False))
             (countRun False 2 (length xs - 2) (afterRun xs False)))"

text \<open>
  With \<^verbatim>\<open>Math.random\<close> uniform on the unit interval, the comparator returns a negative
  number when the number drawn is above one half and a positive one when it is below,
  with probability one half each at every call, whatever the calls before it
  returned; the one number that gives zero is left out of the count. The \<open>2 ^ d\<close>
  sequences of \<open>d\<close> such signs, \<open>signSeqs d\<close>, are then equally likely, and the
  probability of what the first \<open>d\<close> calls decide is the number of the sequences that
  give it, over \<open>2 ^ d\<close>. \<open>drawsOf\<close> makes a sequence into the signs of all calls.
  \<open>selections\<close> lists what the sampler returns on each of the sequences, and \<open>ways\<close>
  counts those on which it returns \<open>ys\<close>.
\<close>

definition drawsOf :: "sgn list \<Rightarrow> nat \<Rightarrow> sgn" where
  "drawsOf rs i = (if i < length rs then rs ! i else Negative)"

definition signSeqs :: "nat \<Rightarrow> sgn list list" where
  "signSeqs d = List.n_lists d [Negative, Positive]"

definition selections ::
  "(highlight list \<Rightarrow> highlight sorter) \<Rightarrow> settings \<Rightarrow> highlight list \<Rightarrow> nat \<Rightarrow> highlight list list" where
  "selections engine st hpool d =
     map (\<lambda>rs. sampleOf (\<lambda>xs. runSort (engine xs) (drawsOf rs) 0) st hpool) (signSeqs d)"

definition ways ::
  "(highlight list \<Rightarrow> highlight sorter) \<Rightarrow> settings \<Rightarrow> highlight list \<Rightarrow> nat \<Rightarrow> highlight list \<Rightarrow> nat" where
  "ways engine st hpool d ys = length (filter (\<lambda>zs. zs = ys) (selections engine st hpool d))"

section \<open>displayHighlights and the pass\<close>

text \<open>
  What the container \<^verbatim>\<open>.book-highlights-container\<close> shows is the list of the elements
  created in it, in the order of their creation; \<open>depth\<close> \<open>0\<close> is a child of the
  container, \<open>1\<close> a child of the last element of depth \<open>0\<close>, and so on. An element
  keeps its tag, its class and its text option; attributes and listeners are left out.
  \<open>Separator\<close> is the text of a bullet between two spaces, which the alphabet of the
  model does not hold.

  \<open>cardSteps\<close> are the calls of \<^verbatim>\<open>createEl\<close> that the body of \<^verbatim>\<open>forEach\<close> makes for one
  highlight, in order. The step for the author is \<open>None\<close> when the template literal
  \<^verbatim>\<open>` by ${highlight.author}`\<close> throws: the author is any value that the front matter
  holds under \<^verbatim>\<open>author\<close>, and the literal converts it to a string.
\<close>

definition el :: "nat \<Rightarrow> string \<Rightarrow> string \<Rightarrow> caption \<Rightarrow> element" where
  "el d t c x = \<lparr>depth = d, tagName = t, cls = c, caption = x\<rparr>"

definition authorStep :: "highlight \<Rightarrow> element option" where
  "authorStep hl =
     map_option (\<lambda>a. el 2 ''span'' ''book-author'' (Caption (JStr ('' by '' @ a))))
       (toStr (author hl))"

definition titleSteps :: "settings \<Rightarrow> highlight \<Rightarrow> element option list" where
  "titleSteps st hl =
     (if showBookTitle st
      then [Some (el 1 ''h4'' ''book-title-container'' NoText),
            Some (el 2 ''a'' ''book-title-link'' (Caption (bookTitle hl)))] @
           (if showAuthor st \<and> truthy (author hl) then [authorStep hl] else [])
      else [])"

definition metaSteps :: "settings \<Rightarrow> highlight \<Rightarrow> element option list" where
  "metaSteps st hl =
     (if showMetadata st
      then [Some (el 1 ''div'' ''highlight-meta'' NoText)] @
           (if page hl \<noteq> [] then [Some (el 2 ''span'' [] (Caption (JStr (''Page '' @ page hl))))]
            else []) @
           (if location hl \<noteq> []
            then (if page hl \<noteq> [] then [Some (el 2 ''span'' [] Separator)] else []) @
                 [Some (el 2 ''span'' [] (Caption (JStr (''Location '' @ location hl))))]
            else []) @
           (if date hl \<noteq> []
            then (if page hl \<noteq> [] \<or> location hl \<noteq> [] then [Some (el 2 ''span'' [] Separator)]
                  else []) @
                 [Some (el 2 ''span'' [] (Caption (JStr (date hl))))]
            else [])
      else [])"

definition cardSteps :: "settings \<Rightarrow> highlight \<Rightarrow> element option list" where
  "cardSteps st hl =
     [Some (el 0 ''div'' ''book-highlight-card'' NoText)] @
     titleSteps st hl @
     [Some (el 1 ''div'' ''highlight-text'' (Caption (JStr (text hl))))] @
     (if showComments st \<and> comment hl \<noteq> []
      then [Some (el 1 ''div'' ''highlight-comment'' (Caption (JStr (''Note: '' @ comment hl))))]
      else []) @
     metaSteps st hl"

text \<open>
  The steps are taken in order. A step that throws, in the view or in \<^verbatim>\<open>createEl\<close>,
  adds no element and ends the drawing; the elements created before it stay. The
  result is what the container shows and whether the drawing returned.
\<close>

fun drawSteps :: "(element \<Rightarrow> bool) \<Rightarrow> element option list \<Rightarrow> element list \<Rightarrow> element list \<times> bool" where
  "drawSteps ok [] shown = (shown, True)"
| "drawSteps ok (None # later) shown = (shown, False)"
| "drawSteps ok (Some e # later) shown =
     (if ok e then drawSteps ok later (shown @ [e]) else (shown, False))"

definition stepOk :: "(element \<Rightarrow> bool) \<Rightarrow> element option \<Rightarrow> bool" where
  \<comment> \<open>the step does not throw\<close>
  "stepOk ok s = (case s of None \<Rightarrow> False | Some e \<Rightarrow> ok e)"

text \<open>
  The view: the published pool \<^verbatim>\<open>this.highlights\<close>, what the container shows (\<open>None\<close>
  when the content element holds no container), and the error paragraphs that the
  outer \<^verbatim>\<open>catch\<close> has appended to the content element.
\<close>

record view =
  highlights :: "highlight list"
  container :: "element list option"
  notices :: "string list"

definition displaySteps :: "host \<Rightarrow> settings \<Rightarrow> highlight list \<Rightarrow> element option list" where
  "displaySteps h st hs =
     (let randomHighlights = sampleOf (hostSort h) st hs
      in if length randomHighlights = 0
         then [Some (el 0 ''p'' ''no-highlights''
                 (Caption (JStr ''No highlights found. Add some book highlights to your notes!'')))]
         else concat (map (cardSteps st) randomHighlights))"

definition displayHighlights :: "host \<Rightarrow> settings \<Rightarrow> view \<Rightarrow> view \<times> bool" where
  \<comment> \<open>the view after the call, and whether the call returned\<close>
  "displayHighlights h st v =
     (case container v of
        None \<Rightarrow> (v, True)
      | Some old \<Rightarrow>
          (let r = drawSteps (createEl h) (displaySteps h st (highlights v)) []
           in (v\<lparr>container := Some (fst r)\<rparr>, snd r)))"

definition errorText :: string where
  "errorText = ''Error loading highlights. Check console for details.''"

definition passFailed :: "view \<Rightarrow> view" where
  \<comment> \<open>the outer \<^verbatim>\<open>catch\<close>: one paragraph is appended to the content element\<close>
  "passFailed v = v\<lparr>notices := notices v @ [errorText]\<rparr>"

definition refreshHighlights :: "host \<Rightarrow> settings \<Rightarrow> view \<Rightarrow> view" where
  "refreshHighlights h st v =
     (case getMarkdownFiles h of
        None \<Rightarrow> passFailed v
      | Some files \<Rightarrow>
          (let found = pool (scanFiles h st (inFolder st files) scanStart);
               r = displayHighlights h st (v\<lparr>highlights := found\<rparr>)
           in if snd r then fst r else passFailed (fst r)))"

text \<open>A vault of two notes, the second with a mapping for its author, and a view.\<close>

definition plainNote :: tfile where
  \<comment> \<open>a note with an annotation block and no front matter\<close>
  "plainNote = \<lparr>path = ''plain.md'', readResult = Some ''> [!quote] hi''\<rparr>"

definition oddAuthorBlock :: string where
  "oddAuthorBlock = ''author:\<newline>  toString: 1''"

definition oddAuthorNote :: tfile where
  "oddAuthorNote =
     \<lparr>path = ''b.md'',
      readResult = Some (''---\<newline>'' @ oddAuthorBlock @ ''\<newline>---\<newline>\<newline>> [!quote] r'')\<rparr>"

definition oddVault :: "tfile list" where
  "oddVault = [quoteFile ''a.md'' 1, oddAuthorNote]"

definition oddHost :: host where
  \<comment> \<open>a host whose \<^verbatim>\<open>yaml.load\<close> is known at the front matter of the two notes\<close>
  "oddHost =
     demoHost\<lparr>yamlLoad :=
                (\<lambda>block. if block = oddAuthorBlock
                   then Some (JObj [(''author'', JObj [(''toString'', JNum ''1'')])])
                   else oneKeyYaml block),
              getMarkdownFiles := Some oddVault\<rparr>"

definition oldView :: view where
  "oldView =
     \<lparr>highlights = extractHighlights demoSettings ''> [!quote] old'' ''old.md'' (JObj []),
      container = Some [], notices = []\<rparr>"


definition oddShown :: "element list" where
  \<comment> \<open>the card of the first note, and the card of the second as far as its title\<close>
  "oddShown =
     [el 0 ''div'' ''book-highlight-card'' NoText,
      el 1 ''h4'' ''book-title-container'' NoText,
      el 2 ''a'' ''book-title-link'' (Caption (JStr ''a'')),
      el 1 ''div'' ''highlight-text'' (Caption (JStr ''q'')),
      el 1 ''div'' ''highlight-meta'' NoText,
      el 0 ''div'' ''book-highlight-card'' NoText,
      el 1 ''h4'' ''book-title-container'' NoText,
      el 2 ''a'' ''book-title-link'' (Caption (JStr ''b''))]"

section \<open>Front matter: theorems\<close>

lemma startsWith_iff: "startsWith p s \<longleftrightarrow> (\<exists>t. s = p @ t)"
proof (induction p s rule: startsWith.induct)
  case (1 s)
  show ?case by simp
next
  case (2 p ps)
  show ?case by simp
next
  case (3 p ps c cs)
  then show ?case by auto
qed

lemma findFirst_None_iff: "findFirst m s = None \<longleftrightarrow> (\<forall>pre t. s = pre @ t \<longrightarrow> m t = None)"
proof (induction s)
  case Nil
  show ?case by (auto split: option.splits)
next
  case (Cons c cs)
  show ?case
  proof (cases "m (c # cs)")
    case (Some r')
    then have "findFirst m (c # cs) \<noteq> None" by simp
    moreover from Some have "\<not> (\<forall>pre t. c # cs = pre @ t \<longrightarrow> m t = None)"
      by (metis append_Nil option.distinct(1))
    ultimately show ?thesis by blast
  next
    case None
    have "(\<forall>pre t. c # cs = pre @ t \<longrightarrow> m t = None) \<longleftrightarrow> (\<forall>pre t. cs = pre @ t \<longrightarrow> m t = None)"
    proof
      assume a: "\<forall>pre t. c # cs = pre @ t \<longrightarrow> m t = None"
      show "\<forall>pre t. cs = pre @ t \<longrightarrow> m t = None"
      proof (intro allI impI)
        fix pre t assume "cs = pre @ t"
        then have "c # cs = (c # pre) @ t" by simp
        with a show "m t = None" by blast
      qed
    next
      assume a: "\<forall>pre t. cs = pre @ t \<longrightarrow> m t = None"
      show "\<forall>pre t. c # cs = pre @ t \<longrightarrow> m t = None"
      proof (intro allI impI)
        fix pre t assume e: "c # cs = pre @ t"
        show "m t = None"
        proof (cases pre)
          case Nil
          with e None show ?thesis by simp
        next
          case (Cons p ps)
          with e have "cs = ps @ t" by simp
          with a show ?thesis by blast
        qed
      qed
    qed
    with None Cons.IH show ?thesis by (auto split: option.splits)
  qed
qed

lemma frontmatterMatch_None_iff:
  "frontmatterMatch content = None \<longleftrightarrow>
     \<not> (\<exists>block rest. content = ''---\<newline>'' @ block @ ''\<newline>---'' @ rest)"
proof (cases "startsWith ''---\<newline>'' content")
  case False
  then have "frontmatterMatch content = None" by (simp add: frontmatterMatch_def)
  moreover from False have "\<not> (\<exists>block rest. content = ''---\<newline>'' @ block @ ''\<newline>---'' @ rest)"
    unfolding startsWith_iff by blast
  ultimately show ?thesis by blast
next
  case True
  then obtain t where t: "content = ''---\<newline>'' @ t" unfolding startsWith_iff by blast
  then have d: "drop 4 content = t" by simp
  have "frontmatterMatch content = None \<longleftrightarrow> findFirst fenceClose t = None"
    using True d by (simp add: frontmatterMatch_def)
  also have "\<dots> \<longleftrightarrow> (\<forall>pre u. t = pre @ u \<longrightarrow> \<not> startsWith ''\<newline>---'' u)"
    unfolding findFirst_None_iff fenceClose_def by auto
  also have "\<dots> \<longleftrightarrow> \<not> (\<exists>block rest. t = block @ ''\<newline>---'' @ rest)"
    unfolding startsWith_iff by blast
  also have "\<dots> \<longleftrightarrow> \<not> (\<exists>block rest. content = ''---\<newline>'' @ block @ ''\<newline>---'' @ rest)"
    using t by simp
  finally show ?thesis .
qed

text \<open>
  Claim C6, as stated, at the text \<^verbatim>\<open>---\na: 1\n----\<close>: its third line is not a line
  holding the delimiter only, so the text does not begin with a delimiter pair in the
  specification's sense, and yet the extractor returns the decoded mapping.
\<close>

theorem extractFrontmatter_pair_counterexample:
  "\<not> beginsWithDelimiterPair ''---\<newline>a: 1\<newline>----'' \<and>
   extractFrontmatter oneKeyYaml ''---\<newline>a: 1\<newline>----'' = Some (JObj [(''a'', JNum ''1'')])"
  by (simp add: beginsWithDelimiterPair_def extractFrontmatter_def frontmatterMatch_def
      fenceClose_def oneKeyYaml_def orElse_def)

text \<open>
  Claim C6, amended. The extractor is a total function (it never throws). It returns
  "no metadata" (\<open>None\<close>) whenever the text is not of the form: the line \<^verbatim>\<open>---\<close>, a block,
  and a line feed followed by \<^verbatim>\<open>---\<close> (the closing line need only begin with the
  delimiter); it returns "no metadata" whenever the decoder fails on the block; and
  "no metadata" is not the empty mapping, which is what a block decoding to an empty
  value gives.
\<close>

theorem extractFrontmatter_no_metadata:
  "(\<not> (\<exists>block rest. content = ''---\<newline>'' @ block @ ''\<newline>---'' @ rest)
      \<longrightarrow> extractFrontmatter load content = None) \<and>
   (\<forall>block. frontmatterMatch content = Some block \<and> load block = None
      \<longrightarrow> extractFrontmatter load content = None) \<and>
   (\<forall>block. frontmatterMatch content = Some block \<and> load block = Some JNull
      \<longrightarrow> extractFrontmatter load content = Some (JObj [])) \<and>
   (None :: jsval option) \<noteq> Some (JObj [])"
  using frontmatterMatch_None_iff [of content]
  by (auto simp: extractFrontmatter_def orElse_def)

theorem extractFrontmatter_no_metadata_witness:
  "extractFrontmatter oneKeyYaml ''no front matter'' = None \<and>
   extractFrontmatter oneKeyYaml ''---\<newline>a: [\<newline>---\<newline>'' = None \<and>
   extractFrontmatter (\<lambda>b. Some JNull) ''---\<newline>\<newline>---\<newline>'' = Some (JObj [])"
proof -
  have a: "\<not> (\<exists>block rest. ''no front matter'' = ''---\<newline>'' @ block @ ''\<newline>---'' @ rest)"
    by simp
  have b: "frontmatterMatch ''---\<newline>a: [\<newline>---\<newline>'' = Some ''a: [''"
    by (simp add: frontmatterMatch_def fenceClose_def)
  have c: "oneKeyYaml ''a: ['' = None" by (simp add: oneKeyYaml_def)
  have d: "frontmatterMatch ''---\<newline>\<newline>---\<newline>'' = Some ''''"
    by (simp add: frontmatterMatch_def fenceClose_def)
  from extractFrontmatter_no_metadata [of "''no front matter''" oneKeyYaml] a
  have 1: "extractFrontmatter oneKeyYaml ''no front matter'' = None" by blast
  from extractFrontmatter_no_metadata [of "''---\<newline>a: [\<newline>---\<newline>''" oneKeyYaml] b c
  have 2: "extractFrontmatter oneKeyYaml ''---\<newline>a: [\<newline>---\<newline>'' = None" by blast
  from extractFrontmatter_no_metadata [of "''---\<newline>\<newline>---\<newline>''" "\<lambda>b. Some JNull"] d
  have 3: "extractFrontmatter (\<lambda>b. Some JNull) ''---\<newline>\<newline>---\<newline>'' = Some (JObj [])" by blast
  from 1 2 3 show ?thesis by blast
qed

section \<open>Highlight extraction: theorems\<close>

lemma blockHighlight_text: "h \<in> set (blockHighlight st p fm body) \<Longrightarrow> text h \<noteq> []"
proof (cases "ftext (extractFields (cleanCallout body)) = []")
  case True
  assume "h \<in> set (blockHighlight st p fm body)"
  with True show ?thesis by (simp add: blockHighlight_def Let_def)
next
  case False
  assume "h \<in> set (blockHighlight st p fm body)"
  with False have "text h = ftext (extractFields (cleanCallout body))"
    by (simp add: blockHighlight_def Let_def)
  with False show ?thesis by simp
qed

lemma blockHighlight_empty:
  "ftext (extractFields (cleanCallout body)) = [] \<Longrightarrow> blockHighlight st p fm body = []"
  by (simp add: blockHighlight_def Let_def)

lemma extractFrom_text: "h \<in> set (extractFrom st p fm s) \<Longrightarrow> text h \<noteq> []"
proof (induction st p fm s rule: extractFrom.induct)
  case (1 st filePath frontmatter s)
  show ?case
  proof (cases "findFirst calloutAt s")
    case None
    with "1.prems" show ?thesis by (simp add: extractFrom.simps [of st filePath frontmatter s])
  next
    case (Some r)
    from "1.prems" Some have "h \<in> set (blockHighlight st filePath frontmatter (fst (snd (snd r))))
        \<or> h \<in> set (extractFrom st filePath frontmatter (snd (snd (snd r))))"
      by (simp add: extractFrom.simps [of st filePath frontmatter s])
    then show ?thesis
    proof
      assume "h \<in> set (blockHighlight st filePath frontmatter (fst (snd (snd r))))"
      then show ?thesis by (rule blockHighlight_text)
    next
      assume "h \<in> set (extractFrom st filePath frontmatter (snd (snd (snd r))))"
      with "1.IH" Some show ?thesis by simp
    qed
  qed
qed

text \<open>
  Claim C7. Every highlight that \<open>extractHighlights\<close> returns has a non-empty text, and
  a block whose text is empty after the sub-fields, the prefix and the suffix are
  stripped and the rest is trimmed pushes no highlight.
\<close>

theorem emitted_text_nonempty:
  "(\<forall>h \<in> set (extractHighlights st content filePath frontmatter). text h \<noteq> []) \<and>
   (ftext (extractFields (cleanCallout body)) = []
      \<longrightarrow> blockHighlight st filePath frontmatter body = [])"
proof (intro conjI ballI impI)
  fix h assume "h \<in> set (extractHighlights st content filePath frontmatter)"
  then show "text h \<noteq> []" unfolding extractHighlights_def by (rule extractFrom_text)
next
  assume "ftext (extractFields (cleanCallout body)) = []"
  then show "blockHighlight st filePath frontmatter body = []" by (rule blockHighlight_empty)
qed

theorem emitted_text_nonempty_witness:
  "map text (extractHighlights demoSettings
      ''> [!note] Page: 3\<newline>> [!quote]\<newline>> hi'' ''n.md'' (JObj [])) = [''hi''] \<and>
   ''hi'' \<noteq> [] \<and>
   ftext (extractFields (cleanCallout '' Page: 3'')) = [] \<and>
   blockHighlight demoSettings ''n.md'' (JObj []) '' Page: 3'' = []"
proof -
  have e: "map text (extractHighlights demoSettings
      ''> [!note] Page: 3\<newline>> [!quote]\<newline>> hi'' ''n.md'' (JObj [])) = [''hi'']"
    by code_simp
  have f: "ftext (extractFields (cleanCallout '' Page: 3'')) = []"
    by code_simp
  from emitted_text_nonempty [of demoSettings
      "''> [!note] Page: 3\<newline>> [!quote]\<newline>> hi''" "''n.md''" "JObj []" "'' Page: 3''"] f
  have "blockHighlight demoSettings ''n.md'' (JObj []) '' Page: 3'' = []" by blast
  with e f show ?thesis by simp
qed

section \<open>The scan of the vault: theorems\<close>

lemma fileHighlights_unread: "readResult f = None \<Longrightarrow> fileHighlights h st f = []"
  unfolding fileHighlights_def by simp

lemma fileHighlights_no_frontmatter:
  "readResult f = Some content \<Longrightarrow> extractFrontmatter (yamlLoad h) content = None \<Longrightarrow>
   fileHighlights h st f = []"
  unfolding fileHighlights_def by simp

lemma fileHighlights_rejected:
  "readResult f = Some content \<Longrightarrow> extractFrontmatter (yamlLoad h) content = Some fm \<Longrightarrow>
   \<not> passesFilter h st fm \<Longrightarrow> fileHighlights h st f = []"
  unfolding fileHighlights_def by simp

lemma fileHighlights_passed:
  "readResult f = Some content \<Longrightarrow> extractFrontmatter (yamlLoad h) content = Some fm \<Longrightarrow>
   passesFilter h st fm \<Longrightarrow> fileHighlights h st f = extractHighlights st content (path f) fm"
  unfolding fileHighlights_def by simp

lemma scanFiles_skip:
  "fileSkipped h st f \<Longrightarrow>
   scanFiles h st (f # fs) s = scanFiles h st fs (s\<lparr>processedFiles := Suc (processedFiles s)\<rparr>)"
  unfolding fileSkipped_def by (auto simp: scanFiles.simps(2) Let_def split: option.splits)

lemma scanFiles_pass:
  assumes "readResult f = Some content" "extractFrontmatter (yamlLoad h) content = Some fm"
    "passesFilter h st fm"
  shows "scanFiles h st (f # fs) s =
     (let s2 = afterFile st f (extractHighlights st content (path f) fm) s
      in if 0 < maxHighlights st \<and> maxHighlights st \<le> int (length (pool s2))
         then s2\<lparr>pool := take (nat (maxHighlights st)) (pool s2)\<rparr>
         else scanFiles h st fs s2)"
  using assms by (auto simp: scanFiles.simps(2) Let_def afterFile_def)

lemma pool_afterFile: "pool (afterFile st f bh s) = pool s @ bh"
  by (simp add: afterFile_def)

lemma not_skipped:
  assumes "\<not> fileSkipped h st f"
  obtains content fm where "readResult f = Some content"
    "extractFrontmatter (yamlLoad h) content = Some fm" "passesFilter h st fm"
  using assms unfolding fileSkipped_def by (auto split: option.splits)

lemma fileSkipped_highlights: "fileSkipped h st f \<Longrightarrow> fileHighlights h st f = []"
  unfolding fileSkipped_def fileHighlights_def by (auto split: option.splits)

lemma pool_scan_unlimited:
  "maxHighlights st \<le> 0 \<Longrightarrow>
   pool (scanFiles h st fs s) = pool s @ concat (map (fileHighlights h st) fs)"
proof (induction fs arbitrary: s)
  case Nil
  show ?case by simp
next
  case (Cons f fs)
  show ?case
  proof (cases "fileSkipped h st f")
    case True
    then show ?thesis
      using Cons.IH [OF Cons.prems] by (simp add: scanFiles_skip fileSkipped_highlights)
  next
    case False
    then obtain content fm where rd: "readResult f = Some content"
        and fmS: "extractFrontmatter (yamlLoad h) content = Some fm" and pf: "passesFilter h st fm"
      by (rule not_skipped)
    have fh: "fileHighlights h st f = extractHighlights st content (path f) fm"
      using rd fmS pf by (rule fileHighlights_passed)
    from Cons.prems show ?thesis
      by (simp add: scanFiles_pass [OF rd fmS pf] Cons.IH [OF Cons.prems] fh Let_def pool_afterFile)
  qed
qed

lemma pool_scan_capped:
  "0 < maxHighlights st \<Longrightarrow> int (length (pool s)) < maxHighlights st \<Longrightarrow>
   pool (scanFiles h st fs s) =
     take (nat (maxHighlights st)) (pool s @ concat (map (fileHighlights h st) fs))"
proof (induction fs arbitrary: s)
  case Nil
  then show ?case by simp
next
  case (Cons f fs)
  show ?case
  proof (cases "fileSkipped h st f")
    case True
    let ?s0 = "s\<lparr>processedFiles := Suc (processedFiles s)\<rparr>"
    have "pool (scanFiles h st fs ?s0) =
        take (nat (maxHighlights st)) (pool s @ concat (map (fileHighlights h st) fs))"
      using Cons.IH [of ?s0] Cons.prems by simp
    with True show ?thesis by (simp add: scanFiles_skip fileSkipped_highlights)
  next
    case False
    then obtain content fm where rd: "readResult f = Some content"
        and fmS: "extractFrontmatter (yamlLoad h) content = Some fm" and pf: "passesFilter h st fm"
      by (rule not_skipped)
    let ?bh = "extractHighlights st content (path f) fm"
    let ?s2 = "afterFile st f ?bh s"
    have fh: "fileHighlights h st f = ?bh"
      using rd fmS pf by (rule fileHighlights_passed)
    have p2: "pool ?s2 = pool s @ ?bh" by (rule pool_afterFile)
    show ?thesis
    proof (cases "maxHighlights st \<le> int (length (pool ?s2))")
      case True
      with Cons.prems have "pool (scanFiles h st (f # fs) s) =
          take (nat (maxHighlights st)) (pool s @ ?bh)"
        by (simp add: scanFiles_pass [OF rd fmS pf] Let_def p2)
      moreover from True p2 have "nat (maxHighlights st) \<le> length (pool s @ ?bh)" by simp
      then have "take (nat (maxHighlights st)) ((pool s @ ?bh) @ concat (map (fileHighlights h st) fs))
          = take (nat (maxHighlights st)) (pool s @ ?bh)"
        by simp
      ultimately show ?thesis using fh by simp
    next
      case False
      then have "scanFiles h st (f # fs) s = scanFiles h st fs ?s2"
        by (simp add: scanFiles_pass [OF rd fmS pf] Let_def)
      moreover from False have "int (length (pool ?s2)) < maxHighlights st" by simp
      from Cons.IH [OF Cons.prems(1) this]
      have "pool (scanFiles h st fs ?s2) =
          take (nat (maxHighlights st)) (pool ?s2 @ concat (map (fileHighlights h st) fs))" .
      ultimately show ?thesis using fh p2 by simp
    qed
  qed
qed

lemma scan_stops_at_cap:
  "0 < maxHighlights st \<Longrightarrow> int (length (pool s)) < maxHighlights st \<Longrightarrow>
   maxHighlights st \<le> int (length (pool s @ concat (map (fileHighlights h st) fs))) \<Longrightarrow>
   scanFiles h st (fs @ later) s = scanFiles h st fs s"
proof (induction fs arbitrary: s)
  case Nil
  then show ?case by simp
next
  case (Cons f fs)
  show ?case
  proof (cases "fileSkipped h st f")
    case True
    let ?s0 = "s\<lparr>processedFiles := Suc (processedFiles s)\<rparr>"
    from Cons.prems True have "scanFiles h st (fs @ later) ?s0 = scanFiles h st fs ?s0"
      by (intro Cons.IH) (simp_all add: fileSkipped_highlights)
    with True show ?thesis by (simp add: scanFiles_skip)
  next
    case False
    then obtain content fm where rd: "readResult f = Some content"
        and fmS: "extractFrontmatter (yamlLoad h) content = Some fm" and pf: "passesFilter h st fm"
      by (rule not_skipped)
    let ?bh = "extractHighlights st content (path f) fm"
    let ?s2 = "afterFile st f ?bh s"
    have fh: "fileHighlights h st f = ?bh"
      using rd fmS pf by (rule fileHighlights_passed)
    have p2: "pool ?s2 = pool s @ ?bh" by (rule pool_afterFile)
    show ?thesis
    proof (cases "maxHighlights st \<le> int (length (pool ?s2))")
      case True
      with Cons.prems show ?thesis
        using scanFiles_pass [OF rd fmS pf, of fs s] scanFiles_pass [OF rd fmS pf, of "fs @ later" s]
        by (simp add: Let_def)
    next
      case False
      from Cons.prems False fh p2 have "scanFiles h st (fs @ later) ?s2 = scanFiles h st fs ?s2"
        by (intro Cons.IH) simp_all
      with False show ?thesis
        using scanFiles_pass [OF rd fmS pf, of fs s] scanFiles_pass [OF rd fmS pf, of "fs @ later" s]
        by (simp add: Let_def)
    qed
  qed
qed

lemma blockHighlight_cap_free:
  "blockHighlight (st\<lparr>maxHighlights := m\<rparr>) p fm body = blockHighlight st p fm body"
  by (simp add: blockHighlight_def)

lemma extractFrom_cap_free:
  "extractFrom (st\<lparr>maxHighlights := m\<rparr>) p fm s = extractFrom st p fm s"
proof (induction st p fm s rule: extractFrom.induct)
  case (1 st filePath frontmatter s)
  show ?case
  proof (cases "findFirst calloutAt s")
    case None
    then show ?thesis
      by (simp add: extractFrom.simps [of _ filePath frontmatter s])
  next
    case (Some r)
    with "1.IH" [OF Some] show ?thesis
      by (simp add: extractFrom.simps [of _ filePath frontmatter s] blockHighlight_cap_free)
  qed
qed

lemma fileHighlights_cap_free:
  "fileHighlights h (st\<lparr>maxHighlights := m\<rparr>) = fileHighlights h st"
proof
  fix f show "fileHighlights h (st\<lparr>maxHighlights := m\<rparr>) f = fileHighlights h st f"
    by (simp add: fileHighlights_def passesFilter_def extractHighlights_def extractFrom_cap_free
        split: option.split)
qed

text \<open>
  Claim C5. With a cap greater than 0, whenever the scan without a cap (\<open>maxHighlights\<close>
  set to 0, the setting for "no limit") finds at least as many highlights as the cap, the
  pool of the capped scan is the first \<open>maxHighlights\<close> of them, in the order of the
  scan, and holds exactly that many. The loop is left once: files that come after the
  file where the cap is reached are not looked at, so appending any files to the corpus
  leaves the whole loop state, counters included, as it is.
\<close>

theorem cap_truncates_in_scan_order:
  assumes "0 < maxHighlights st"
    and "maxHighlights st \<le> int (length (pool (scanFiles h (st\<lparr>maxHighlights := 0\<rparr>) files scanStart)))"
  shows "pool (scanFiles h st files scanStart) =
           take (nat (maxHighlights st)) (pool (scanFiles h (st\<lparr>maxHighlights := 0\<rparr>) files scanStart)) \<and>
         int (length (pool (scanFiles h st files scanStart))) = maxHighlights st \<and>
         scanFiles h st (files @ later) scanStart = scanFiles h st files scanStart"
proof -
  let ?raw = "concat (map (fileHighlights h st) files)"
  have raw: "pool (scanFiles h (st\<lparr>maxHighlights := 0\<rparr>) files scanStart) = ?raw"
    using pool_scan_unlimited [of "st\<lparr>maxHighlights := 0\<rparr>" h files scanStart]
    by (simp add: fileHighlights_cap_free scanStart_def)
  have capped: "pool (scanFiles h st files scanStart) = take (nat (maxHighlights st)) ?raw"
    using pool_scan_capped [of st scanStart h files] assms(1) by (simp add: scanStart_def)
  from assms(2) raw have enough: "maxHighlights st \<le> int (length ?raw)" by simp
  have stop: "scanFiles h st (files @ later) scanStart = scanFiles h st files scanStart"
    using scan_stops_at_cap [of st scanStart h files later] assms(1) enough
    by (simp add: scanStart_def)
  from capped enough assms(1) have "int (length (pool (scanFiles h st files scanStart))) = maxHighlights st"
    by simp
  with capped raw stop show ?thesis by simp
qed

lemma corpus_raw:
  "length (pool (scanFiles demoHost (noFilter\<lparr>maxHighlights := 0\<rparr>) corpus scanStart)) = 30"
  by code_simp

theorem cap_truncates_in_scan_order_witness:
  "length (pool (scanFiles demoHost (noFilter\<lparr>maxHighlights := 0\<rparr>) corpus scanStart)) = 30 \<and>
   int (length (pool (scanFiles demoHost (noFilter\<lparr>maxHighlights := 10\<rparr>) corpus scanStart))) = 10 \<and>
   pool (scanFiles demoHost (noFilter\<lparr>maxHighlights := 10\<rparr>) corpus scanStart) =
     take 10 (pool (scanFiles demoHost (noFilter\<lparr>maxHighlights := 0\<rparr>) corpus scanStart)) \<and>
   scanFiles demoHost (noFilter\<lparr>maxHighlights := 10\<rparr>) (corpus @ [quoteFile ''d.md'' 1]) scanStart =
     scanFiles demoHost (noFilter\<lparr>maxHighlights := 10\<rparr>) corpus scanStart"
proof -
  have a: "0 < maxHighlights (noFilter\<lparr>maxHighlights := 10\<rparr>)" by simp
  have b: "maxHighlights (noFilter\<lparr>maxHighlights := 10\<rparr>)
      \<le> int (length (pool (scanFiles demoHost (noFilter\<lparr>maxHighlights := 10, maxHighlights := 0\<rparr>) corpus scanStart)))"
    using corpus_raw by simp
  from cap_truncates_in_scan_order [OF a b, of "[quoteFile ''d.md'' 1]"] corpus_raw
  show ?thesis by simp
qed

section \<open>The sampler: theorems\<close>

lemma alloc_old: "a < nextAddr s \<Longrightarrow> arrays (snd (alloc s xs)) a = arrays s a"
  by (simp add: alloc_def)

lemma alloc_next: "nextAddr (snd (alloc s xs)) = Suc (nextAddr s)"
  by (simp add: alloc_def)

lemma alloc_fst: "fst (alloc s xs) = nextAddr s"
  by (simp add: alloc_def)

lemma alloc_new: "arrays (snd (alloc s xs)) (fst (alloc s xs)) = xs"
  by (simp add: alloc_def)

text \<open>
  Claim C10. \<open>getRandomHighlights\<close> leaves the array behind \<^verbatim>\<open>this.highlights\<close> as it
  was, elements and order, and every other array that existed before the call: the
  shuffle works on a copy at a new address, and the result is another new array, the
  leading part of the shuffled copy.
\<close>

theorem sampling_leaves_pool:
  assumes "this_highlights < nextAddr s"
  shows
   "arrays (snd (getRandomHighlights sortRandom st this_highlights s)) this_highlights
      = arrays s this_highlights \<and>
    (\<forall>a. a < nextAddr s \<longrightarrow>
       arrays (snd (getRandomHighlights sortRandom st this_highlights s)) a = arrays s a) \<and>
    nextAddr s \<le> fst (getRandomHighlights sortRandom st this_highlights s) \<and>
    arrays (snd (getRandomHighlights sortRandom st this_highlights s))
        (fst (getRandomHighlights sortRandom st this_highlights s))
      = (if arrays s this_highlights = [] then []
         else slice0 (sortRandom (arrays s this_highlights))
                (min (randomHighlightsCount st) (int (length (arrays s this_highlights)))))"
proof -
  have old: "arrays (snd (getRandomHighlights sortRandom st this_highlights s)) a = arrays s a"
    if "a < nextAddr s" for a
    using that by (simp add: getRandomHighlights_def alloc_def Let_def)
  have fresh: "nextAddr s \<le> fst (getRandomHighlights sortRandom st this_highlights s)"
    by (simp add: getRandomHighlights_def alloc_def Let_def)
  have res: "arrays (snd (getRandomHighlights sortRandom st this_highlights s))
        (fst (getRandomHighlights sortRandom st this_highlights s))
      = (if arrays s this_highlights = [] then []
         else slice0 (sortRandom (arrays s this_highlights))
                (min (randomHighlightsCount st) (int (length (arrays s this_highlights)))))"
    using assms by (simp add: getRandomHighlights_def alloc_def Let_def)
  from old [OF assms] old fresh res show ?thesis by blast
qed

theorem sampling_leaves_pool_witness:
  "arrays (snd (getRandomHighlights rev demoSettings 0 poolStore)) 0 = threePool \<and>
   map text (arrays (snd (getRandomHighlights rev demoSettings 0 poolStore))
      (fst (getRandomHighlights rev demoSettings 0 poolStore))) = [''three'', ''two'', ''one''] \<and>
   map text threePool = [''one'', ''two'', ''three'']"
proof -
  have a: "0 < nextAddr poolStore" by (simp add: poolStore_def)
  have p: "arrays poolStore 0 = threePool" by (simp add: poolStore_def)
  have t: "map text threePool = [''one'', ''two'', ''three'']" by code_simp
  then have ne: "threePool \<noteq> []" by auto
  have len: "length threePool = 3" using t by (metis length_map length_Cons list.size(3) numeral_3_eq_3)
  have c: "randomHighlightsCount demoSettings = 5" by (simp add: demoSettings_def)
  from sampling_leaves_pool [OF a, of rev demoSettings] p ne
  have 1: "arrays (snd (getRandomHighlights rev demoSettings 0 poolStore)) 0 = threePool"
    and 2: "arrays (snd (getRandomHighlights rev demoSettings 0 poolStore))
        (fst (getRandomHighlights rev demoSettings 0 poolStore))
      = slice0 (rev threePool) (min (randomHighlightsCount demoSettings) (int (length threePool)))"
    by simp_all
  from 2 len c have "arrays (snd (getRandomHighlights rev demoSettings 0 poolStore))
        (fst (getRandomHighlights rev demoSettings 0 poolStore)) = rev threePool"
    by (simp add: slice0_def)
  with 1 t show ?thesis by (simp add: rev_map [symmetric])
qed

section \<open>The filename parser: theorems\<close>

subsection \<open>The pattern built from a format\<close>

lemma escapeRegex_Nil [simp]: "escapeRegex [] = []"
  by (simp add: escapeRegex_def)

lemma escapeRegex_Cons: "escapeRegex (c # cs) = unit c @ escapeRegex cs"
  by (simp add: escapeRegex_def unit_def special_def)

lemma escapeRegex_append: "escapeRegex (a @ b) = escapeRegex a @ escapeRegex b"
  by (simp add: escapeRegex_def)

lemma titleEscaped_key: "titleEscaped = escapeRegex titleKey"
  by (simp add: titleEscaped_def titleKey_def)

lemma authorEscaped_key: "authorEscaped = escapeRegex authorKey"
  by (simp add: authorEscaped_def authorKey_def)

lemma key_lengths [simp]: "length titleKey = 9" "length authorKey = 10"
  by (simp_all add: titleKey_def authorKey_def)

lemma key_not_Nil [simp]: "titleKey \<noteq> []" "authorKey \<noteq> []"
  by (simp_all add: titleKey_def authorKey_def)

lemma titleEscaped_eq:
  "titleEscaped = backslash # CHR ''{'' # backslash # CHR ''{'' # ''title'' @
     [backslash, CHR ''}'', backslash, CHR ''}'']"
  by (simp add: titleEscaped_def escapeRegex_def backslash_def)

lemma authorEscaped_eq:
  "authorEscaped = backslash # CHR ''{'' # backslash # CHR ''{'' # ''author'' @
     [backslash, CHR ''}'', backslash, CHR ''}'']"
  by (simp add: authorEscaped_def escapeRegex_def backslash_def)

lemma special_backslash [simp]: "special backslash"
  by (simp add: special_def)

lemma special_chars [simp]:
  "special CHR ''{''" "special CHR ''}''" "special CHR ''(''" "special CHR '')''"
  "special CHR ''.''" "special CHR ''+''"
  by (simp_all add: special_def)

lemma startsWith_Nil2 [simp]: "startsWith p [] = (p = [])"
  by (cases p) simp_all

lemma startsWith_append_same [simp]: "startsWith (a @ p) (a @ s) = startsWith p s"
  by (induction a) simp_all

lemma startsWith_self_append [simp]: "startsWith p (p @ s)"
  by (induction p) simp_all

lemma startsWith_Cons1: "startsWith (x # p) s = (case s of [] \<Rightarrow> False | c # cs \<Rightarrow> x = c \<and> startsWith p cs)"
  by (cases s) simp_all

lemma unit_prefix:
  "startsWith (unit x @ p) (unit c @ s) = (x = c \<and> startsWith p s)"
  by (auto simp: unit_def)

lemma startsWith_escape: "startsWith (escapeRegex p) (escapeRegex s) = startsWith p s"
proof (induction p s rule: startsWith.induct)
  case (1 s)
  show ?case by simp
next
  case (2 p ps)
  show ?case by (simp add: escapeRegex_Cons unit_def)
next
  case (3 p ps c cs)
  then show ?case by (simp add: escapeRegex_Cons unit_prefix)
qed

lemma replaceAll_Nil [simp]: "replaceAll p r [] = []"
  by (simp add: replaceAll.simps)

lemma replaceAll_Cons:
  "replaceAll p r (c # cs) =
     (if p \<noteq> [] \<and> startsWith p (c # cs) then r @ replaceAll p r (drop (length p) (c # cs))
      else c # replaceAll p r cs)"
  by (subst replaceAll.simps) simp

lemma replaceAll_head: "p \<noteq> [] \<Longrightarrow> replaceAll p r (p @ s) = r @ replaceAll p r s"
  by (cases p) (simp_all add: replaceAll_Cons)

lemma replaceAll_skip:
  "\<not> startsWith p (c # cs) \<Longrightarrow> replaceAll p r (c # cs) = c # replaceAll p r cs"
  by (simp add: replaceAll_Cons)

lemma escape_head_not_brace: "escapeRegex cs = x # xs \<Longrightarrow> x \<noteq> CHR ''{''"
  by (cases cs) (auto simp: escapeRegex_Cons unit_def backslash_def split: if_splits)

lemma title_misaligned: "\<not> startsWith titleEscaped (c # escapeRegex cs)"
proof
  assume a: "startsWith titleEscaped (c # escapeRegex cs)"
  then obtain x xs where "escapeRegex cs = x # xs" "x = CHR ''{''"
    by (cases "escapeRegex cs") (auto simp: titleEscaped_eq)
  with escape_head_not_brace show False by blast
qed

lemma afterTitle_Nil [simp]: "afterTitle [] = []"
  by (simp add: afterTitle.simps)

lemma afterTitle_Cons:
  "afterTitle (c # cs) =
     (if startsWith titleKey (c # cs) then ''(.+)'' @ afterTitle (drop 9 (c # cs))
      else unit c @ afterTitle cs)"
  by (subst afterTitle.simps) (simp only: list.case)

lemma afterTitle_title: "afterTitle (titleKey @ rest) = ''(.+)'' @ afterTitle rest"
proof -
  have "startsWith titleKey (titleKey @ rest)" by (rule startsWith_self_append)
  moreover have "drop 9 (titleKey @ rest) = rest" by simp
  moreover obtain c cs where "titleKey @ rest = c # cs" by (simp add: titleKey_def)
  ultimately show ?thesis using afterTitle_Cons [of c cs] by (simp only: if_True)
qed

lemma afterTitle_other:
  "\<not> startsWith titleKey (c # cs) \<Longrightarrow> afterTitle (c # cs) = unit c @ afterTitle cs"
  by (simp only: afterTitle_Cons if_False)

lemma title_replaced: "replaceAll titleEscaped ''(.+)'' (escapeRegex s) = afterTitle s"
proof (induction s rule: length_induct)
  case (1 s)
  show ?case
  proof (cases s)
    case Nil
    then show ?thesis by simp
  next
    case (Cons c cs)
    show ?thesis
    proof (cases "startsWith titleKey s")
      case True
      then obtain rest where s: "s = titleKey @ rest" unfolding startsWith_iff by blast
      then have "length rest < length s" by simp
      with "1.IH" have ih: "replaceAll titleEscaped ''(.+)'' (escapeRegex rest) = afterTitle rest"
        by blast
      have e: "escapeRegex s = titleEscaped @ escapeRegex rest"
        unfolding s by (simp only: escapeRegex_append titleEscaped_key)
      have ne: "titleEscaped \<noteq> []" by (simp add: titleEscaped_eq)
      have "replaceAll titleEscaped ''(.+)'' (escapeRegex s) =
          ''(.+)'' @ replaceAll titleEscaped ''(.+)'' (escapeRegex rest)"
        unfolding e by (rule replaceAll_head [OF ne])
      with ih show ?thesis unfolding s by (simp only: afterTitle_title)
    next
      case False
      have "length cs < length s" by (simp add: Cons)
      with "1.IH" have ih: "replaceAll titleEscaped ''(.+)'' (escapeRegex cs) = afterTitle cs"
        by blast
      have at: "afterTitle s = unit c @ afterTitle cs"
        using False unfolding Cons by (rule afterTitle_other)
      have nt: "\<not> startsWith titleEscaped (escapeRegex s)"
        using False startsWith_escape [of titleKey s] by (simp add: titleEscaped_key)
      show ?thesis
      proof (cases "special c")
        case True
        then have e: "escapeRegex s = backslash # c # escapeRegex cs"
          by (simp add: Cons escapeRegex_Cons unit_def)
        with nt have "replaceAll titleEscaped ''(.+)'' (escapeRegex s) =
            backslash # replaceAll titleEscaped ''(.+)'' (c # escapeRegex cs)"
          by (simp add: replaceAll_skip)
        also have "\<dots> = backslash # c # replaceAll titleEscaped ''(.+)'' (escapeRegex cs)"
          using title_misaligned [of c cs] by (simp add: replaceAll_skip)
        finally show ?thesis using ih at True by (simp add: unit_def)
      next
        case False
        then have e: "escapeRegex s = c # escapeRegex cs"
          by (simp add: Cons escapeRegex_Cons unit_def)
        with nt have "replaceAll titleEscaped ''(.+)'' (escapeRegex s) =
            c # replaceAll titleEscaped ''(.+)'' (escapeRegex cs)"
          by (simp add: replaceAll_skip)
        then show ?thesis using ih at False by (simp add: unit_def)
      qed
    qed
  qed
qed

lemma startsWith_common:
  "startsWith a s \<Longrightarrow> startsWith b s \<Longrightarrow> startsWith a b \<or> startsWith b a"
proof (induction a s arbitrary: b rule: startsWith.induct)
  case (1 s)
  show ?case by simp
next
  case (2 p ps)
  then show ?case by simp
next
  case (3 p ps c cs)
  show ?case
  proof (cases b)
    case Nil
    then show ?thesis by simp
  next
    case (Cons y ys)
    with "3.prems" have "p = c" "startsWith ps cs" "y = c" "startsWith ys cs" by simp_all
    with "3.IH" [of ys] Cons show ?thesis by simp
  qed
qed

lemma apart_clash: "apart p q \<Longrightarrow> startsWith q s \<Longrightarrow> \<not> startsWith p s"
  using startsWith_common [of p s q] by (auto simp: apart_def)

lemma unit_not_Nil [simp]: "unit x \<noteq> []"
  by (simp add: unit_def)

lemma unit_head: "unit x = y # ys \<Longrightarrow> y = backslash \<or> \<not> special y"
  by (auto simp: unit_def split: if_splits)

lemma peel:
  "startsWith (unit x @ P) (afterTitle s) =
     (case s of
        [] \<Rightarrow> False
      | c # cs \<Rightarrow> if startsWith titleKey s then False
                  else c = x \<and> startsWith P (afterTitle cs))"
proof (cases s)
  case Nil
  then show ?thesis by simp
next
  case (Cons c cs)
  show ?thesis
  proof (cases "startsWith titleKey s")
    case True
    then obtain rest where s: "s = titleKey @ rest" unfolding startsWith_iff by blast
    obtain y ys where u: "unit x = y # ys" by (cases "unit x") simp_all
    from unit_head [OF u] have "y \<noteq> CHR ''(''" by (auto simp: backslash_def)
    then have "\<not> startsWith (unit x @ P) (afterTitle s)"
      unfolding s afterTitle_title u by simp
    with True Cons show ?thesis by simp
  next
    case False
    then have "afterTitle s = unit c @ afterTitle cs" unfolding Cons by (rule afterTitle_other)
    with False Cons show ?thesis by (auto simp: unit_prefix)
  qed
qed

lemma startsWith_afterTitle:
  "list_all (apart titleKey) (tails p) \<Longrightarrow>
   startsWith (escapeRegex p) (afterTitle s) = startsWith p s"
proof (induction p arbitrary: s)
  case Nil
  show ?case by simp
next
  case (Cons x p)
  from Cons.prems have ap: "apart titleKey (x # p)" and rest: "list_all (apart titleKey) (tails p)"
    by simp_all
  show ?case
  proof (cases s)
    case Nil
    then show ?thesis by (simp add: escapeRegex_Cons)
  next
    case (Cons c cs)
    note s = this
    show ?thesis
    proof (cases "startsWith titleKey s")
      case True
      have "\<not> startsWith (x # p) s"
      proof
        assume "startsWith (x # p) s"
        from startsWith_common [OF this True] ap show False by (auto simp: apart_def)
      qed
      moreover from True have "\<not> startsWith (escapeRegex (x # p)) (afterTitle s)"
        unfolding escapeRegex_Cons peel s by simp
      ultimately show ?thesis by simp
    next
      case False
      then show ?thesis
        unfolding escapeRegex_Cons peel s using Cons.IH [OF rest, of cs] by auto
    qed
  qed
qed

lemma author_tails: "list_all (apart titleKey) (tails authorKey)"
  by (simp add: apart_def titleKey_def authorKey_def)

lemma title_tails: "list_all (apart authorKey) (tails titleKey)"
  by (simp add: apart_def titleKey_def authorKey_def)

lemma afterTitle_append:
  "list_all (apart titleKey) (tails p) \<Longrightarrow>
   afterTitle (p @ rest) = escapeRegex p @ afterTitle rest"
proof (induction p)
  case Nil
  show ?case by simp
next
  case (Cons x p)
  from Cons.prems have ap: "apart titleKey (x # p)" and tl: "list_all (apart titleKey) (tails p)"
    by simp_all
  have "\<not> startsWith titleKey (x # (p @ rest))"
  proof
    assume a: "startsWith titleKey (x # (p @ rest))"
    have "startsWith (x # p) (x # (p @ rest))" by simp
    from startsWith_common [OF this a] ap show False by (auto simp: apart_def)
  qed
  then have "afterTitle (x # (p @ rest)) = unit x @ afterTitle (p @ rest)" by (rule afterTitle_other)
  with Cons.IH [OF tl] show ?case by (simp add: escapeRegex_Cons)
qed

lemma afterTitle_head: "afterTitle cs = x # xs \<Longrightarrow> x \<noteq> CHR ''{''"
proof (cases cs)
  case Nil
  assume "afterTitle cs = x # xs"
  with Nil show ?thesis by simp
next
  case (Cons c cs')
  assume a: "afterTitle cs = x # xs"
  show ?thesis
  proof (cases "startsWith titleKey cs")
    case True
    then obtain rest where "cs = titleKey @ rest" unfolding startsWith_iff by blast
    with a show ?thesis by (auto simp: afterTitle_title)
  next
    case False
    then have "afterTitle cs = unit c @ afterTitle cs'" unfolding Cons by (rule afterTitle_other)
    with a obtain ys where "unit c = x # ys" by (cases "unit c") simp_all
    from unit_head [OF this] show ?thesis by (auto simp: backslash_def)
  qed
qed

lemma author_misaligned: "\<not> startsWith authorEscaped (c # afterTitle cs)"
proof
  assume a: "startsWith authorEscaped (c # afterTitle cs)"
  then obtain x xs where "afterTitle cs = x # xs" "x = CHR ''{''"
    by (cases "afterTitle cs") (auto simp: authorEscaped_eq)
  with afterTitle_head show False by blast
qed

lemma author_skips_group:
  "replaceAll authorEscaped r (''(.+)'' @ X) = ''(.+)'' @ replaceAll authorEscaped r X"
  by (simp add: replaceAll_Cons authorEscaped_eq backslash_def)

lemma afterBoth_Nil [simp]: "afterBoth [] = []"
  by (simp add: afterBoth.simps)

lemma afterBoth_Cons:
  "afterBoth (c # cs) =
     (if startsWith titleKey (c # cs) then ''(.+)'' @ afterBoth (drop 9 (c # cs))
      else if startsWith authorKey (c # cs) then ''(.+)'' @ afterBoth (drop 10 (c # cs))
      else unit c @ afterBoth cs)"
  by (subst afterBoth.simps) (simp only: list.case)

lemma afterBoth_title: "afterBoth (titleKey @ rest) = ''(.+)'' @ afterBoth rest"
proof -
  have "startsWith titleKey (titleKey @ rest)" by (rule startsWith_self_append)
  moreover have "drop 9 (titleKey @ rest) = rest" by simp
  moreover obtain c cs where "titleKey @ rest = c # cs" by (simp add: titleKey_def)
  ultimately show ?thesis using afterBoth_Cons [of c cs] by (simp only: if_True)
qed

lemma afterBoth_author: "afterBoth (authorKey @ rest) = ''(.+)'' @ afterBoth rest"
proof -
  have "startsWith authorKey (authorKey @ rest)" by (rule startsWith_self_append)
  moreover have "\<not> startsWith titleKey (authorKey @ rest)"
    by (simp add: titleKey_def authorKey_def)
  moreover have "drop 10 (authorKey @ rest) = rest" by simp
  moreover obtain c cs where "authorKey @ rest = c # cs" by (simp add: authorKey_def)
  ultimately show ?thesis using afterBoth_Cons [of c cs] by (simp only: if_True if_False)
qed

lemma afterBoth_other:
  "\<not> startsWith titleKey (c # cs) \<Longrightarrow> \<not> startsWith authorKey (c # cs) \<Longrightarrow>
   afterBoth (c # cs) = unit c @ afterBoth cs"
  by (simp only: afterBoth_Cons if_False)

lemma author_replaced: "replaceAll authorEscaped ''(.+)'' (afterTitle s) = afterBoth s"
proof (induction s rule: length_induct)
  case (1 s)
  show ?case
  proof (cases s)
    case Nil
    then show ?thesis by simp
  next
    case (Cons c cs)
    show ?thesis
    proof (cases "startsWith titleKey s")
      case True
      then obtain rest where s: "s = titleKey @ rest" unfolding startsWith_iff by blast
      then have "length rest < length s" by simp
      with "1.IH" have "replaceAll authorEscaped ''(.+)'' (afterTitle rest) = afterBoth rest" by blast
      then show ?thesis
        unfolding s afterTitle_title afterBoth_title author_skips_group by simp
    next
      case False
      note nt = this
      show ?thesis
      proof (cases "startsWith authorKey s")
        case True
        then obtain rest where s: "s = authorKey @ rest" unfolding startsWith_iff by blast
        then have "length rest < length s" by simp
        with "1.IH" have ih: "replaceAll authorEscaped ''(.+)'' (afterTitle rest) = afterBoth rest"
          by blast
        have at: "afterTitle s = authorEscaped @ afterTitle rest"
          unfolding s authorEscaped_key by (rule afterTitle_append [OF author_tails])
        have ne: "authorEscaped \<noteq> []" by (simp add: authorEscaped_eq)
        have "replaceAll authorEscaped ''(.+)'' (afterTitle s) =
            ''(.+)'' @ replaceAll authorEscaped ''(.+)'' (afterTitle rest)"
          unfolding at by (rule replaceAll_head [OF ne])
        with ih show ?thesis unfolding s afterBoth_author by simp
      next
        case False
        have "length cs < length s" by (simp add: Cons)
        with "1.IH" have ih: "replaceAll authorEscaped ''(.+)'' (afterTitle cs) = afterBoth cs"
          by blast
        have at: "afterTitle s = unit c @ afterTitle cs"
          using nt unfolding Cons by (rule afterTitle_other)
        have ab: "afterBoth s = unit c @ afterBoth cs"
          using nt False unfolding Cons by (rule afterBoth_other)
        have na: "\<not> startsWith authorEscaped (afterTitle s)"
          using False startsWith_afterTitle [OF author_tails, of s] by (simp add: authorEscaped_key)
        show ?thesis
        proof (cases "special c")
          case True
          then have e: "afterTitle s = backslash # c # afterTitle cs"
            by (simp add: at unit_def)
          with na have "replaceAll authorEscaped ''(.+)'' (afterTitle s) =
              backslash # replaceAll authorEscaped ''(.+)'' (c # afterTitle cs)"
            by (simp add: replaceAll_skip)
          also have "\<dots> = backslash # c # replaceAll authorEscaped ''(.+)'' (afterTitle cs)"
            using author_misaligned [of c cs] by (simp add: replaceAll_skip)
          finally show ?thesis using ih ab True by (simp add: unit_def)
        next
          case False
          then have e: "afterTitle s = c # afterTitle cs"
            by (simp add: at unit_def)
          with na have "replaceAll authorEscaped ''(.+)'' (afterTitle s) =
              c # replaceAll authorEscaped ''(.+)'' (afterTitle cs)"
            by (simp add: replaceAll_skip)
          then show ?thesis using ih ab False by (simp add: unit_def)
        qed
      qed
    qed
  qed
qed

lemma compile_Nil [simp]: "compile [] = []"
  by (simp add: compile.simps)

lemma compile_group: "compile (''(.+)'' @ X) = Grp # compile X"
  by (subst compile.simps) simp

lemma compile_unit: "compile (unit c @ X) = Lit c # compile X"
proof (cases "special c")
  case True
  then show ?thesis by (subst compile.simps) (simp add: unit_def backslash_def)
next
  case False
  then have "c \<noteq> CHR ''(''" "c \<noteq> backslash" by auto
  with False show ?thesis by (subst compile.simps) (simp add: unit_def)
qed

lemma templateToks_Nil [simp]: "templateToks [] = []"
  by (simp add: templateToks.simps)

lemma templateToks_Cons:
  "templateToks (c # cs) =
     (if startsWith titleKey (c # cs) then Grp # templateToks (drop 9 (c # cs))
      else if startsWith authorKey (c # cs) then Grp # templateToks (drop 10 (c # cs))
      else Lit c # templateToks cs)"
  by (subst templateToks.simps) (simp only: list.case)

lemma templateToks_title: "templateToks (titleKey @ rest) = Grp # templateToks rest"
proof -
  have "startsWith titleKey (titleKey @ rest)" by (rule startsWith_self_append)
  moreover have "drop 9 (titleKey @ rest) = rest" by simp
  moreover obtain c cs where "titleKey @ rest = c # cs" by (simp add: titleKey_def)
  ultimately show ?thesis using templateToks_Cons [of c cs] by (simp only: if_True)
qed

lemma templateToks_author: "templateToks (authorKey @ rest) = Grp # templateToks rest"
proof -
  have "startsWith authorKey (authorKey @ rest)" by (rule startsWith_self_append)
  moreover have "\<not> startsWith titleKey (authorKey @ rest)"
    by (simp add: titleKey_def authorKey_def)
  moreover have "drop 10 (authorKey @ rest) = rest" by simp
  moreover obtain c cs where "authorKey @ rest = c # cs" by (simp add: authorKey_def)
  ultimately show ?thesis using templateToks_Cons [of c cs] by (simp only: if_True if_False)
qed

lemma templateToks_other:
  "\<not> startsWith titleKey (c # cs) \<Longrightarrow> \<not> startsWith authorKey (c # cs) \<Longrightarrow>
   templateToks (c # cs) = Lit c # templateToks cs"
  by (simp only: templateToks_Cons if_False)

lemma compile_afterBoth: "compile (afterBoth s) = templateToks s"
proof (induction s rule: length_induct)
  case (1 s)
  show ?case
  proof (cases s)
    case Nil
    then show ?thesis by simp
  next
    case (Cons c cs)
    show ?thesis
    proof (cases "startsWith titleKey s")
      case True
      then obtain rest where s: "s = titleKey @ rest" unfolding startsWith_iff by blast
      then have "length rest < length s" by simp
      with "1.IH" have "compile (afterBoth rest) = templateToks rest" by blast
      then show ?thesis unfolding s afterBoth_title templateToks_title compile_group by simp
    next
      case False
      note nt = this
      show ?thesis
      proof (cases "startsWith authorKey s")
        case True
        then obtain rest where s: "s = authorKey @ rest" unfolding startsWith_iff by blast
        then have "length rest < length s" by simp
        with "1.IH" have "compile (afterBoth rest) = templateToks rest" by blast
        then show ?thesis unfolding s afterBoth_author templateToks_author compile_group by simp
      next
        case False
        have "length cs < length s" by (simp add: Cons)
        with "1.IH" have "compile (afterBoth cs) = templateToks cs" by blast
        then show ?thesis
          unfolding Cons using nt False
          by (simp add: afterBoth_other templateToks_other compile_unit Cons)
      qed
    qed
  qed
qed

lemma pattern_tokens: "compile (patternOf format) = templateToks format"
  by (simp add: patternOf_def title_replaced author_replaced compile_afterBoth)

subsection \<open>The anchored match\<close>

lemma groups_simps [simp]:
  "groups [] = 0" "groups (Lit c # ts) = groups ts" "groups (Grp # ts) = Suc (groups ts)"
  by (simp_all add: groups_def)

lemma greedy_Some:
  "greedy k s n = Some r \<Longrightarrow>
   \<exists>m caps. 0 < m \<and> m \<le> n \<and> k (drop m s) = Some caps \<and> r = take m s # caps \<and>
     (\<forall>j. m < j \<and> j \<le> n \<longrightarrow> k (drop j s) = None)"
proof (induction n)
  case 0
  then show ?case by simp
next
  case (Suc n)
  show ?case
  proof (cases "k (drop (Suc n) s)")
    case (Some caps)
    with Suc.prems have "r = take (Suc n) s # caps" by simp
    with Some show ?thesis by (intro exI [of _ "Suc n"] exI [of _ caps]) auto
  next
    case None
    with Suc.prems have "greedy k s n = Some r" by simp
    from Suc.IH [OF this] obtain m caps where m: "0 < m" "m \<le> n" "k (drop m s) = Some caps"
      "r = take m s # caps" "\<forall>j. m < j \<and> j \<le> n \<longrightarrow> k (drop j s) = None" by blast
    have "\<forall>j. m < j \<and> j \<le> Suc n \<longrightarrow> k (drop j s) = None"
    proof (intro allI impI)
      fix j assume "m < j \<and> j \<le> Suc n"
      then have "j = Suc n \<or> (m < j \<and> j \<le> n)" by auto
      with None m(5) show "k (drop j s) = None" by auto
    qed
    with m show ?thesis by (intro exI [of _ m] exI [of _ caps]) auto
  qed
qed

lemma greedy_None: "greedy k s n = None \<longleftrightarrow> (\<forall>m. 0 < m \<and> m \<le> n \<longrightarrow> k (drop m s) = None)"
proof (induction n)
  case 0
  show ?case by simp
next
  case (Suc n)
  show ?case
  proof (cases "k (drop (Suc n) s)")
    case (Some caps)
    then show ?thesis by auto
  next
    case None
    have "(\<forall>m. 0 < m \<and> m \<le> Suc n \<longrightarrow> k (drop m s) = None) \<longleftrightarrow>
        (\<forall>m. 0 < m \<and> m \<le> n \<longrightarrow> k (drop m s) = None)"
      using None by (metis le_Suc_eq)
    with None Suc.IH show ?thesis by simp
  qed
qed

lemma take_run: "m \<le> length (takeWhile P s) \<Longrightarrow> list_all P (take m s)"
proof -
  assume a: "m \<le> length (takeWhile P s)"
  have "takeWhile P s = take (length (takeWhile P s)) s" by (rule takeWhile_eq_take)
  then have "take m (takeWhile P s) = take m s" using a by (metis min.absorb1 take_take)
  moreover have "list_all P (take m (takeWhile P s))"
    unfolding list_all_iff by (meson in_set_takeD set_takeWhileD)
  ultimately show ?thesis by simp
qed

lemma run_length: "list_all P x \<Longrightarrow> length x \<le> length (takeWhile P (x @ r))"
  by (induction x) simp_all

lemma matchToks_sound: "matchToks ts s = Some caps \<Longrightarrow> fits ts caps s"
proof (induction ts arbitrary: s caps)
  case Nil
  then show ?case by (simp add: fits_def split: if_splits)
next
  case (Cons t ts)
  show ?case
  proof (cases t)
    case (Lit c)
    with Cons.prems obtain ds where s: "s = c # ds" and m: "matchToks ts ds = Some caps"
      by (auto split: list.splits if_splits)
    from Cons.IH [OF m] show ?thesis by (simp add: fits_def Lit s)
  next
    case Grp
    let ?n = "length (takeWhile dotChar s)"
    from Cons.prems Grp have "greedy (matchToks ts) s ?n = Some caps" by simp
    from greedy_Some [OF this] obtain m caps' where m: "0 < m" "m \<le> ?n"
      "matchToks ts (drop m s) = Some caps'" "caps = take m s # caps'" by blast
    from Cons.IH [OF m(3)] have f: "fits ts caps' (drop m s)" .
    have "?n \<le> length s" by (rule length_takeWhile_le)
    with m have "take m s \<noteq> []" by auto
    moreover have "list_all dotChar (take m s)" using m(2) by (rule take_run)
    ultimately have "capture (take m s)" by (simp add: capture_def)
    with f m(4) show ?thesis by (simp add: fits_def Grp)
  qed
qed

lemma matchToks_complete: "fits ts caps s \<Longrightarrow> matchToks ts s \<noteq> None"
proof (induction ts arbitrary: s caps)
  case Nil
  then show ?case by (simp add: fits_def)
next
  case (Cons t ts)
  show ?case
  proof (cases t)
    case (Lit c)
    with Cons.prems have s: "s = c # fill ts caps" and f: "fits ts caps (fill ts caps)"
      by (auto simp: fits_def)
    from Cons.IH [OF f] show ?thesis by (simp add: Lit s)
  next
    case Grp
    with Cons.prems obtain x caps' where c: "caps = x # caps'"
      by (cases caps) (auto simp: fits_def)
    with Cons.prems Grp have x: "capture x" and s: "s = x @ fill ts caps'"
      and f: "fits ts caps' (fill ts caps')"
      by (auto simp: fits_def)
    let ?n = "length (takeWhile dotChar s)"
    from x have l: "0 < length x" "length x \<le> ?n"
      unfolding s by (simp_all add: capture_def run_length)
    have d: "matchToks ts (drop (length x) s) \<noteq> None"
      using Cons.IH [OF f] by (simp add: s)
    have "greedy (matchToks ts) s ?n \<noteq> None"
    proof
      assume "greedy (matchToks ts) s ?n = None"
      then have "\<forall>m. 0 < m \<and> m \<le> ?n \<longrightarrow> matchToks ts (drop m s) = None"
        by (simp only: greedy_None)
      with l have "matchToks ts (drop (length x) s) = None" by blast
      with d show False by simp
    qed
    then show ?thesis by (simp add: Grp)
  qed
qed

lemma matchToks_greedy:
  "matchToks ts s = Some caps \<Longrightarrow> fits ts caps' s \<Longrightarrow> caps' = caps \<or> before caps' caps"
proof (induction ts arbitrary: s caps caps')
  case Nil
  then show ?case by (simp add: fits_def split: if_splits)
next
  case (Cons t ts)
  show ?case
  proof (cases t)
    case (Lit c)
    with Cons.prems(1) obtain ds where s: "s = c # ds" and m: "matchToks ts ds = Some caps"
      by (auto split: list.splits if_splits)
    from Cons.prems(2) Lit s have "fits ts caps' ds" by (simp add: fits_def)
    from Cons.IH [OF m this] show ?thesis .
  next
    case Grp
    let ?n = "length (takeWhile dotChar s)"
    from Cons.prems(1) Grp have "greedy (matchToks ts) s ?n = Some caps" by simp
    from greedy_Some [OF this] obtain m c1 where m: "0 < m" "m \<le> ?n"
      "matchToks ts (drop m s) = Some c1" "caps = take m s # c1"
      "\<forall>j. m < j \<and> j \<le> ?n \<longrightarrow> matchToks ts (drop j s) = None" by blast
    from Cons.prems(2) Grp obtain x c1' where c: "caps' = x # c1'"
      by (cases caps') (auto simp: fits_def)
    with Cons.prems(2) Grp have x: "capture x" and s: "s = x @ fill ts c1'"
      and f: "fits ts c1' (fill ts c1')"
      by (auto simp: fits_def)
    from x have xn: "length x \<le> ?n" unfolding s by (simp add: capture_def run_length)
    have dx: "drop (length x) s = fill ts c1'" by (simp add: s)
    have "\<not> m < length x"
    proof
      assume "m < length x"
      with m(5) xn have "matchToks ts (drop (length x) s) = None" by blast
      with matchToks_complete [OF f] dx show False by simp
    qed
    then have "length x < m \<or> length x = m" by auto
    then show ?thesis
    proof
      assume "length x < m"
      moreover have "m \<le> length s" using m(2) length_takeWhile_le [of dotChar s] by simp
      ultimately show ?thesis by (simp add: c m(4))
    next
      assume e: "length x = m"
      then have tx: "take m s = x" by (simp add: s)
      from e dx have "drop m s = fill ts c1'" by simp
      with f have "fits ts c1' (drop m s)" by simp
      from Cons.IH [OF m(3) this] show ?thesis by (auto simp: c m(4) tx)
    qed
  qed
qed

lemma occursIn_groups:
  "occursIn titleKey s \<or> occursIn authorKey s \<Longrightarrow> 1 \<le> groups (templateToks s)"
proof (induction s rule: length_induct)
  case (1 s)
  show ?case
  proof (cases s)
    case Nil
    with "1.prems" show ?thesis by (auto simp: occursIn_def)
  next
    case (Cons c cs)
    show ?thesis
    proof (cases "startsWith titleKey s")
      case True
      then obtain rest where "s = titleKey @ rest" unfolding startsWith_iff by blast
      then show ?thesis by (simp add: templateToks_title)
    next
      case False
      note nt = this
      show ?thesis
      proof (cases "startsWith authorKey s")
        case True
        then obtain rest where "s = authorKey @ rest" unfolding startsWith_iff by blast
        then show ?thesis by (simp add: templateToks_author)
      next
        case False
        have step: "occursIn p cs" if "occursIn p s" "\<not> startsWith p s" for p
        proof -
          from that(1) obtain pre post where e: "s = pre @ p @ post" unfolding occursIn_def by blast
          with that(2) have "pre \<noteq> []" by (auto simp: startsWith_iff)
          with e Cons obtain pre' where "pre = c # pre'" by (cases pre) auto
          with e Cons have "cs = pre' @ p @ post" by simp
          then show ?thesis unfolding occursIn_def by blast
        qed
        from "1.prems" nt False step have "occursIn titleKey cs \<or> occursIn authorKey cs" by blast
        moreover have "length cs < length s" by (simp add: Cons)
        ultimately have "1 \<le> groups (templateToks cs)" using "1.IH" by blast
        with nt False show ?thesis by (simp add: Cons templateToks_other)
      qed
    qed
  qed
qed

lemma in_tails: "us \<noteq> [] \<Longrightarrow> us \<in> set (tails (pre @ us))"
  by (induction pre) (cases us; simp)+

lemma occurs_after:
  assumes ap: "list_all (apart p) (tails q)" and o: "occursIn p (q @ rest)"
  shows "occursIn p rest"
proof -
  from o obtain pre post where e: "q @ rest = pre @ p @ post" unfolding occursIn_def by blast
  then consider us where "q = pre @ us" "us @ rest = p @ post"
    | us where "q @ us = pre" "rest = us @ p @ post"
    by (auto simp: append_eq_append_conv2)
  then show ?thesis
  proof cases
    case 1
    show ?thesis
    proof (cases "us = []")
      case True
      with 1 show ?thesis unfolding occursIn_def by (metis append_Nil)
    next
      case False
      from in_tails [OF this, of pre] 1(1) have "us \<in> set (tails q)" by simp
      with ap have a: "apart p us" by (simp add: list_all_iff)
      have a1: "startsWith us (us @ rest)" by simp
      have a2: "startsWith p (us @ rest)" unfolding 1(2) by simp
      from startsWith_common [OF a1 a2] a show ?thesis by (auto simp: apart_def)
    qed
  next
    case 2
    then show ?thesis unfolding occursIn_def by blast
  qed
qed

lemma both_groups:
  "occursIn titleKey s \<Longrightarrow> occursIn authorKey s \<Longrightarrow> 2 \<le> groups (templateToks s)"
proof (induction s rule: length_induct)
  case (1 s)
  show ?case
  proof (cases s)
    case Nil
    with "1.prems" show ?thesis by (auto simp: occursIn_def)
  next
    case (Cons c cs)
    show ?thesis
    proof (cases "startsWith titleKey s")
      case True
      then obtain rest where s: "s = titleKey @ rest" unfolding startsWith_iff by blast
      with "1.prems"(2) have "occursIn authorKey rest"
        using occurs_after [OF title_tails] by blast
      then have "1 \<le> groups (templateToks rest)" using occursIn_groups by blast
      then show ?thesis by (simp add: s templateToks_title)
    next
      case False
      note nt = this
      show ?thesis
      proof (cases "startsWith authorKey s")
        case True
        then obtain rest where s: "s = authorKey @ rest" unfolding startsWith_iff by blast
        with "1.prems"(1) have "occursIn titleKey rest"
          using occurs_after [OF author_tails] by blast
        then have "1 \<le> groups (templateToks rest)" using occursIn_groups by blast
        then show ?thesis by (simp add: s templateToks_author)
      next
        case False
        have step: "occursIn p cs" if "occursIn p s" "\<not> startsWith p s" for p
        proof -
          from that(1) obtain pre post where e: "s = pre @ p @ post" unfolding occursIn_def by blast
          with that(2) have "pre \<noteq> []" by (auto simp: startsWith_iff)
          with e Cons obtain pre' where "pre = c # pre'" by (cases pre) auto
          with e Cons have "cs = pre' @ p @ post" by simp
          then show ?thesis unfolding occursIn_def by blast
        qed
        from "1.prems" nt False step have "occursIn titleKey cs" "occursIn authorKey cs" by blast+
        moreover have "length cs < length s" by (simp add: Cons)
        ultimately have "2 \<le> groups (templateToks cs)" using "1.IH" by blast
        with nt False show ?thesis by (simp add: Cons templateToks_other)
      qed
    qed
  qed
qed

lemma indexOf_occurs: "indexOf s p \<noteq> None \<longleftrightarrow> occursIn p s"
proof -
  have "indexOf s p = None \<longleftrightarrow> (\<forall>pre t. s = pre @ t \<longrightarrow> \<not> startsWith p t)"
    unfolding indexOf_def by (auto simp: findFirst_None_iff split: if_splits)
  also have "\<dots> \<longleftrightarrow> \<not> occursIn p s"
    unfolding occursIn_def startsWith_iff by blast
  finally show ?thesis by simp
qed

lemma basename_stripped:
  "((\<exists>b e. filename = b @ e \<and> isExtension e) \<longrightarrow>
      (\<exists>e. isExtension e \<and> filename = reRemove extAt filename @ e)) \<and>
   (\<not> (\<exists>b e. filename = b @ e \<and> isExtension e) \<longrightarrow> reRemove extAt filename = filename)"
proof (cases "findFirst extAt filename")
  case None
  then have "\<forall>pre t. filename = pre @ t \<longrightarrow> \<not> isExtension t"
    unfolding findFirst_None_iff by (auto simp: extAt_def isExtension_def split: if_splits)
  with None show ?thesis by (auto simp: reRemove_def)
next
  case (Some r)
  obtain pre cap rest where r: "r = (pre, cap, rest)" by (cases r) auto
  from findFirst_Some_split [of extAt filename pre "(cap, rest)"] Some r obtain t
    where t: "filename = pre @ t" "extAt t = Some (cap, rest)" by blast
  then have "isExtension t" "rest = []"
    by (auto simp: extAt_def isExtension_def split: if_splits)
  moreover have "reRemove extAt filename = pre" using Some r \<open>rest = []\<close> by (simp add: reRemove_def)
  ultimately show ?thesis using t(1) by auto
qed

subsection \<open>The parser\<close>

lemma parse_no_match:
  "matchToks (compile (patternOf (if format = [] then ''{{title}} by {{author}}'' else format)))
      (reRemove extAt filename) = None \<Longrightarrow>
   parseTitleAndAuthor format filename = \<lparr>title = reRemove extAt filename, pauthor = None\<rparr>"
  by (simp add: parseTitleAndAuthor_def patternOf_def Let_def)

lemma parse_match:
  "matchToks (compile (patternOf (if format = [] then ''{{title}} by {{author}}'' else format)))
      (reRemove extAt filename) = Some m \<Longrightarrow>
   parseTitleAndAuthor format filename =
     (case (indexOf (if format = [] then ''{{title}} by {{author}}'' else format) ''{{title}}'',
            indexOf (if format = [] then ''{{title}} by {{author}}'' else format) ''{{author}}'') of
        (Some ti, Some ai) \<Rightarrow>
          \<lparr>title = (if ti < ai then m ! 0 else m ! 1),
           pauthor = Some (if ti < ai then m ! 1 else m ! 0)\<rparr>
      | (Some ti, None) \<Rightarrow> \<lparr>title = m ! 0, pauthor = None\<rparr>
      | (None, Some ai) \<Rightarrow> \<lparr>title = m ! 0, pauthor = None\<rparr>
      | (None, None) \<Rightarrow> \<lparr>title = reRemove extAt filename, pauthor = None\<rparr>)"
  by (simp add: parseTitleAndAuthor_def patternOf_def Let_def)

lemma match_iff_fits:
  "matchToks ts s = None \<longleftrightarrow> \<not> (\<exists>caps. fits ts caps s)"
proof
  assume "matchToks ts s = None"
  with matchToks_complete show "\<not> (\<exists>caps. fits ts caps s)" by blast
next
  assume "\<not> (\<exists>caps. fits ts caps s)"
  with matchToks_sound show "matchToks ts s = None" by (cases "matchToks ts s") auto
qed

lemma captures_in_range:
  assumes "matchToks (templateToks fmt) s = Some m"
  shows "(indexOf fmt ''{{title}}'' \<noteq> None \<or> indexOf fmt ''{{author}}'' \<noteq> None \<longrightarrow> 1 \<le> length m) \<and>
         (indexOf fmt ''{{title}}'' \<noteq> None \<and> indexOf fmt ''{{author}}'' \<noteq> None \<longrightarrow> 2 \<le> length m)"
proof -
  from matchToks_sound [OF assms] have l: "length m = groups (templateToks fmt)"
    by (simp add: fits_def)
  have t: "indexOf fmt ''{{title}}'' \<noteq> None \<longleftrightarrow> occursIn titleKey fmt"
    using indexOf_occurs [of fmt titleKey] by (simp add: titleKey_def)
  have a: "indexOf fmt ''{{author}}'' \<noteq> None \<longleftrightarrow> occursIn authorKey fmt"
    using indexOf_occurs [of fmt authorKey] by (simp add: authorKey_def)
  show ?thesis unfolding t a l using occursIn_groups [of fmt] both_groups [of fmt] by blast
qed

lemma example_dune:
  "parseTitleAndAuthor ''{{title}} by {{author}}'' ''Dune by Frank Herbert.md'' =
     \<lparr>title = ''Dune'', pauthor = Some ''Frank Herbert''\<rparr>"
  by code_simp

lemma example_notes:
  "parseTitleAndAuthor ''{{title}}'' ''Notes.md'' = \<lparr>title = ''Notes'', pauthor = None\<rparr>"
  by code_simp

text \<open>
  Claim C3. For every filename and every format, with the basename the filename less a
  final \<^verbatim>\<open>.md\<close>, \<^verbatim>\<open>.markdown\<close> or \<^verbatim>\<open>.txt\<close> in any case, and the default format
  taken for an empty one: the pattern that the parser builds by escaping the format
  and replacing the escaped placeholders is the format read with each placeholder as
  a group \<^verbatim>\<open>(.+)\<close> and every other character as itself; the anchored match fails
  exactly when no choice of non-empty captures without line terminators spells the
  whole basename, and then the title is the basename and the author is absent; when it
  succeeds, its captures spell the whole basename and are the greedy choice (any other
  choice has a shorter capture at the first group where it differs); with both
  placeholders in the format the two captures go to title and author by which
  placeholder comes first, with only one placeholder, title or author, the first
  capture is the title and the author is absent, and with no placeholder the title is
  the basename. Format \<^verbatim>\<open>{{title}} by {{author}}\<close> on \<^verbatim>\<open>Dune by Frank Herbert.md\<close> gives
  title \<^verbatim>\<open>Dune\<close> and author \<^verbatim>\<open>Frank Herbert\<close>; format \<^verbatim>\<open>{{title}}\<close> on \<^verbatim>\<open>Notes.md\<close>
  gives title \<^verbatim>\<open>Notes\<close> and no author.
\<close>

theorem filename_parser_contract:
  "let basename = reRemove extAt filename;
       fmt = (if format = [] then ''{{title}} by {{author}}'' else format);
       ts = compile (patternOf fmt);
       r = parseTitleAndAuthor format filename
   in ts = templateToks fmt \<and>
      ((\<exists>b e. filename = b @ e \<and> isExtension e) \<longrightarrow>
         (\<exists>e. isExtension e \<and> filename = basename @ e)) \<and>
      (\<not> (\<exists>b e. filename = b @ e \<and> isExtension e) \<longrightarrow> basename = filename) \<and>
      (matchToks ts basename = None \<longleftrightarrow> \<not> (\<exists>caps. fits ts caps basename)) \<and>
      (matchToks ts basename = None \<longrightarrow> r = \<lparr>title = basename, pauthor = None\<rparr>) \<and>
      (\<forall>m. matchToks ts basename = Some m \<longrightarrow>
         fits ts m basename \<and>
         (\<forall>m'. fits ts m' basename \<longrightarrow> m' = m \<or> before m' m) \<and>
         (case (indexOf fmt ''{{title}}'', indexOf fmt ''{{author}}'') of
            (Some ti, Some ai) \<Rightarrow>
              2 \<le> length m \<and>
              r = (if ti < ai then \<lparr>title = m ! 0, pauthor = Some (m ! 1)\<rparr>
                   else \<lparr>title = m ! 1, pauthor = Some (m ! 0)\<rparr>)
          | (Some ti, None) \<Rightarrow> 1 \<le> length m \<and> r = \<lparr>title = m ! 0, pauthor = None\<rparr>
          | (None, Some ai) \<Rightarrow> 1 \<le> length m \<and> r = \<lparr>title = m ! 0, pauthor = None\<rparr>
          | (None, None) \<Rightarrow> r = \<lparr>title = basename, pauthor = None\<rparr>)) \<and>
      parseTitleAndAuthor ''{{title}} by {{author}}'' ''Dune by Frank Herbert.md'' =
        \<lparr>title = ''Dune'', pauthor = Some ''Frank Herbert''\<rparr> \<and>
      parseTitleAndAuthor ''{{title}}'' ''Notes.md'' = \<lparr>title = ''Notes'', pauthor = None\<rparr>"
proof -
  define basename where "basename = reRemove extAt filename"
  define fmt where "fmt = (if format = [] then ''{{title}} by {{author}}'' else format)"
  define ts where "ts = compile (patternOf fmt)"
  define r where "r = parseTitleAndAuthor format filename"
  have a: "ts = templateToks fmt" unfolding ts_def by (rule pattern_tokens)
  have b: "(\<exists>b e. filename = b @ e \<and> isExtension e) \<longrightarrow>
         (\<exists>e. isExtension e \<and> filename = basename @ e)"
    and c: "\<not> (\<exists>b e. filename = b @ e \<and> isExtension e) \<longrightarrow> basename = filename"
    unfolding basename_def using basename_stripped [of filename] by blast+
  have d: "matchToks ts basename = None \<longleftrightarrow> \<not> (\<exists>caps. fits ts caps basename)"
    by (rule match_iff_fits)
  have e: "matchToks ts basename = None \<longrightarrow> r = \<lparr>title = basename, pauthor = None\<rparr>"
    unfolding ts_def basename_def fmt_def r_def using parse_no_match [of format filename] by blast
  have f: "\<forall>m. matchToks ts basename = Some m \<longrightarrow>
         fits ts m basename \<and>
         (\<forall>m'. fits ts m' basename \<longrightarrow> m' = m \<or> before m' m) \<and>
         (case (indexOf fmt ''{{title}}'', indexOf fmt ''{{author}}'') of
            (Some ti, Some ai) \<Rightarrow>
              2 \<le> length m \<and>
              r = (if ti < ai then \<lparr>title = m ! 0, pauthor = Some (m ! 1)\<rparr>
                   else \<lparr>title = m ! 1, pauthor = Some (m ! 0)\<rparr>)
          | (Some ti, None) \<Rightarrow> 1 \<le> length m \<and> r = \<lparr>title = m ! 0, pauthor = None\<rparr>
          | (None, Some ai) \<Rightarrow> 1 \<le> length m \<and> r = \<lparr>title = m ! 0, pauthor = None\<rparr>
          | (None, None) \<Rightarrow> r = \<lparr>title = basename, pauthor = None\<rparr>)"
  proof (intro allI impI conjI)
    fix m assume m: "matchToks ts basename = Some m"
    then show "fits ts m basename" by (rule matchToks_sound)
    show "m' = m \<or> before m' m" if "fits ts m' basename" for m'
      using m that by (rule matchToks_greedy)
    from m have m': "matchToks (compile (patternOf (if format = [] then ''{{title}} by {{author}}'' else format)))
        (reRemove extAt filename) = Some m"
      unfolding ts_def basename_def fmt_def .
    note p = parse_match [OF m', folded fmt_def basename_def r_def]
    from m a have "matchToks (templateToks fmt) basename = Some m" by simp
    note g = captures_in_range [OF this]
    show "case (indexOf fmt ''{{title}}'', indexOf fmt ''{{author}}'') of
            (Some ti, Some ai) \<Rightarrow>
              2 \<le> length m \<and>
              r = (if ti < ai then \<lparr>title = m ! 0, pauthor = Some (m ! 1)\<rparr>
                   else \<lparr>title = m ! 1, pauthor = Some (m ! 0)\<rparr>)
          | (Some ti, None) \<Rightarrow> 1 \<le> length m \<and> r = \<lparr>title = m ! 0, pauthor = None\<rparr>
          | (None, Some ai) \<Rightarrow> 1 \<le> length m \<and> r = \<lparr>title = m ! 0, pauthor = None\<rparr>
          | (None, None) \<Rightarrow> r = \<lparr>title = basename, pauthor = None\<rparr>"
    proof (cases "indexOf fmt ''{{title}}''")
      case None
      note t = this
      show ?thesis
      proof (cases "indexOf fmt ''{{author}}''")
        case None
        with t p show ?thesis by simp
      next
        case (Some ai)
        with t p g show ?thesis by simp
      qed
    next
      case (Some ti)
      note t = this
      show ?thesis
      proof (cases "indexOf fmt ''{{author}}''")
        case None
        with t p g show ?thesis by simp
      next
        case (Some ai)
        with t p g show ?thesis by simp
      qed
    qed
  qed
  from a b c d e f example_dune example_notes show ?thesis
    unfolding Let_def basename_def [symmetric] fmt_def [symmetric] ts_def [symmetric] r_def [symmetric]
    by blast
qed

theorem filename_parser_contract_witness:
  "parseTitleAndAuthor ''{{author}} - {{title}}'' ''Frank Herbert - Dune.MD'' =
     \<lparr>title = ''Dune'', pauthor = Some ''Frank Herbert''\<rparr> \<and>
   parseTitleAndAuthor ''{{author}}'' ''Frank Herbert.txt'' =
     \<lparr>title = ''Frank Herbert'', pauthor = None\<rparr> \<and>
   parseTitleAndAuthor ''{{title}} by {{author}}'' ''Notes.markdown'' =
     \<lparr>title = ''Notes'', pauthor = None\<rparr> \<and>
   parseTitleAndAuthor [] ''A by B by C.md'' = \<lparr>title = ''A by B'', pauthor = Some ''C''\<rparr>"
proof -
  have 1: "parseTitleAndAuthor ''{{author}} - {{title}}'' ''Frank Herbert - Dune.MD'' =
     \<lparr>title = ''Dune'', pauthor = Some ''Frank Herbert''\<rparr>"
  proof -
    have b: "reRemove extAt ''Frank Herbert - Dune.MD'' = ''Frank Herbert - Dune''" by code_simp
    have m: "matchToks (compile (patternOf ''{{author}} - {{title}}'')) ''Frank Herbert - Dune''
        = Some [''Frank Herbert'', ''Dune'']" by code_simp
    have i: "indexOf ''{{author}} - {{title}}'' ''{{title}}'' = Some 13"
      "indexOf ''{{author}} - {{title}}'' ''{{author}}'' = Some 0" by code_simp+
    from filename_parser_contract [of "''Frank Herbert - Dune.MD''" "''{{author}} - {{title}}''"]
    show ?thesis unfolding Let_def b by (simp add: m i)
  qed
  have 2: "parseTitleAndAuthor ''{{author}}'' ''Frank Herbert.txt'' =
     \<lparr>title = ''Frank Herbert'', pauthor = None\<rparr>"
  proof -
    have b: "reRemove extAt ''Frank Herbert.txt'' = ''Frank Herbert''" by code_simp
    have m: "matchToks (compile (patternOf ''{{author}}'')) ''Frank Herbert'' = Some [''Frank Herbert'']"
      by code_simp
    have i: "indexOf ''{{author}}'' ''{{title}}'' = None" "indexOf ''{{author}}'' ''{{author}}'' = Some 0"
      by code_simp+
    from filename_parser_contract [of "''Frank Herbert.txt''" "''{{author}}''"]
    show ?thesis unfolding Let_def b by (simp add: m i)
  qed
  have 3: "parseTitleAndAuthor ''{{title}} by {{author}}'' ''Notes.markdown'' =
     \<lparr>title = ''Notes'', pauthor = None\<rparr>"
  proof -
    have b: "reRemove extAt ''Notes.markdown'' = ''Notes''" by code_simp
    have m: "matchToks (compile (patternOf ''{{title}} by {{author}}'')) ''Notes'' = None"
      by code_simp
    from filename_parser_contract [of "''Notes.markdown''" "''{{title}} by {{author}}''"]
    show ?thesis unfolding Let_def b by (simp add: m)
  qed
  have 4: "parseTitleAndAuthor [] ''A by B by C.md'' = \<lparr>title = ''A by B'', pauthor = Some ''C''\<rparr>"
  proof -
    have b: "reRemove extAt ''A by B by C.md'' = ''A by B by C''" by code_simp
    have m: "matchToks (compile (patternOf ''{{title}} by {{author}}'')) ''A by B by C''
        = Some [''A by B'', ''C'']" by code_simp
    have i: "indexOf ''{{title}} by {{author}}'' ''{{title}}'' = Some 0"
      "indexOf ''{{title}} by {{author}}'' ''{{author}}'' = Some 13" by code_simp+
    from filename_parser_contract [of "''A by B by C.md''" "[]"]
    show ?thesis unfolding Let_def b by (simp add: m i)
  qed
  from 1 2 3 4 show ?thesis by blast
qed

section \<open>The scan without a filter: theorems\<close>

lemma passesFilter_skipped:
  "filterProperty st = [] \<or> filterValue st = [] \<Longrightarrow> passesFilter h st fm"
  by (auto simp: passesFilter_def)

lemma fileSkipped_no_filter:
  "filterProperty st = [] \<or> filterValue st = [] \<Longrightarrow> fileSkipped h st f = (\<not> hasFrontmatter h f)"
  by (auto simp: fileSkipped_def hasFrontmatter_def passesFilter_skipped split: option.splits)

lemma extracted_afterFile: "extracted (afterFile st f bh s) = extracted s @ [path f]"
  by (simp add: afterFile_def)

lemma extracted_scan_unlimited:
  "filterProperty st = [] \<or> filterValue st = [] \<Longrightarrow> maxHighlights st \<le> 0 \<Longrightarrow>
   extracted (scanFiles h st fs s) = extracted s @ map path (filter (hasFrontmatter h) fs)"
proof (induction fs arbitrary: s)
  case Nil
  show ?case by simp
next
  case (Cons f fs)
  show ?case
  proof (cases "fileSkipped h st f")
    case True
    let ?s0 = "s\<lparr>processedFiles := Suc (processedFiles s)\<rparr>"
    from True Cons.prems have nf: "\<not> hasFrontmatter h f" by (simp add: fileSkipped_no_filter)
    from Cons.IH [OF Cons.prems, of ?s0] True nf show ?thesis by (simp add: scanFiles_skip)
  next
    case False
    then obtain content fm where rd: "readResult f = Some content"
        and fmS: "extractFrontmatter (yamlLoad h) content = Some fm" and pf: "passesFilter h st fm"
      by (rule not_skipped)
    from False Cons.prems have hf: "hasFrontmatter h f" by (simp add: fileSkipped_no_filter)
    let ?s2 = "afterFile st f (extractHighlights st content (path f) fm) s"
    from Cons.prems have e: "scanFiles h st (f # fs) s = scanFiles h st fs ?s2"
      by (simp add: scanFiles_pass [OF rd fmS pf] Let_def)
    from Cons.IH [OF Cons.prems, of ?s2] e hf show ?thesis by (simp add: extracted_afterFile)
  qed
qed

lemma extracted_until_cap:
  assumes nf: "filterProperty st = [] \<or> filterValue st = []"
  shows "maxHighlights st \<le> 0 \<or>
      int (length (pool s @ concat (map (fileHighlights h st) (butlast fs)))) < maxHighlights st \<Longrightarrow>
    extracted (scanFiles h st fs s) = extracted s @ map path (filter (hasFrontmatter h) fs)"
proof (induction fs arbitrary: s)
  case Nil
  show ?case by simp
next
  case (Cons f fs)
  show ?case
  proof (cases "fileSkipped h st f")
    case True
    let ?s0 = "s\<lparr>processedFiles := Suc (processedFiles s)\<rparr>"
    from True nf have nfm: "\<not> hasFrontmatter h f" by (simp add: fileSkipped_no_filter)
    from True have fh: "fileHighlights h st f = []" by (rule fileSkipped_highlights)
    have "maxHighlights st \<le> 0 \<or>
        int (length (pool ?s0 @ concat (map (fileHighlights h st) (butlast fs)))) < maxHighlights st"
    proof (cases "fs = []")
      case True
      with Cons.prems show ?thesis by simp
    next
      case False
      with Cons.prems fh show ?thesis by simp
    qed
    from Cons.IH [OF this] True nfm show ?thesis by (simp add: scanFiles_skip)
  next
    case False
    then obtain content fm where rd: "readResult f = Some content"
        and fmS: "extractFrontmatter (yamlLoad h) content = Some fm" and pf: "passesFilter h st fm"
      by (rule not_skipped)
    from False nf have hf: "hasFrontmatter h f" by (simp add: fileSkipped_no_filter)
    let ?bh = "extractHighlights st content (path f) fm"
    let ?s2 = "afterFile st f ?bh s"
    have fh: "fileHighlights h st f = ?bh" using rd fmS pf by (rule fileHighlights_passed)
    have p2: "pool ?s2 = pool s @ ?bh" by (rule pool_afterFile)
    show ?thesis
    proof (cases "0 < maxHighlights st \<and> maxHighlights st \<le> int (length (pool ?s2))")
      case True
      have "fs = []"
      proof (rule ccontr)
        assume "fs \<noteq> []"
        with Cons.prems True fh have
          "int (length (pool s @ ?bh @ concat (map (fileHighlights h st) (butlast fs)))) < maxHighlights st"
          by simp
        with True p2 show False by simp
      qed
      moreover from True have "extracted (scanFiles h st (f # fs) s) = extracted s @ [path f]"
        by (simp add: scanFiles_pass [OF rd fmS pf] Let_def extracted_afterFile)
      ultimately show ?thesis using hf by simp
    next
      case False
      then have e: "scanFiles h st (f # fs) s = scanFiles h st fs ?s2"
        by (auto simp: scanFiles_pass [OF rd fmS pf] Let_def)
      have "maxHighlights st \<le> 0 \<or>
          int (length (pool ?s2 @ concat (map (fileHighlights h st) (butlast fs)))) < maxHighlights st"
      proof (cases "fs = []")
        case True
        with False show ?thesis by (simp add: not_le) linarith
      next
        case False
        with Cons.prems fh p2 show ?thesis by simp
      qed
      from Cons.IH [OF this] e hf show ?thesis by (simp add: extracted_afterFile)
    qed
  qed
qed

lemma extracted_leading_part:
  assumes nf: "filterProperty st = [] \<or> filterValue st = []"
    and f: "files = fs @ later"
    and a: "maxHighlights st \<le> 0 \<or>
      int (length (concat (map (fileHighlights h st) (butlast fs)))) < maxHighlights st"
    and r: "later = [] \<or> (0 < maxHighlights st \<and>
      maxHighlights st \<le> int (length (concat (map (fileHighlights h st) fs))))"
  shows "extracted (scanFiles h st files scanStart) = map path (filter (hasFrontmatter h) fs)"
proof -
  have e: "extracted (scanFiles h st fs scanStart) = map path (filter (hasFrontmatter h) fs)"
    using extracted_until_cap [OF nf, of scanStart h fs] a by (simp add: scanStart_def)
  from r show ?thesis
  proof
    assume "later = []"
    with f e show ?thesis by simp
  next
    assume c: "0 < maxHighlights st \<and>
      maxHighlights st \<le> int (length (concat (map (fileHighlights h st) fs)))"
    have "scanFiles h st (fs @ later) scanStart = scanFiles h st fs scanStart"
      using scan_stops_at_cap [of st scanStart h fs later] c by (simp add: scanStart_def)
    with f e show ?thesis by simp
  qed
qed

lemma leading_part_exists:
  "\<exists>fs later. files = fs @ later \<and>
     (m \<le> 0 \<or> int (length (concat (map g (butlast fs)))) < m) \<and>
     (later = [] \<or> (0 < m \<and> m \<le> int (length (concat (map g fs)))))"
proof (induction files rule: rev_induct)
  case Nil
  have "[] = [] @ [] \<and> (m \<le> 0 \<or> int (length (concat (map g (butlast [])))) < m) \<and>
      ([] = [] \<or> (0 < m \<and> m \<le> int (length (concat (map g [])))))"
    by simp linarith
  then show ?case by (intro exI [of _ "[]"])
next
  case (snoc f files)
  then obtain fs later where f: "files = fs @ later"
    and a: "m \<le> 0 \<or> int (length (concat (map g (butlast fs)))) < m"
    and r: "later = [] \<or> (0 < m \<and> m \<le> int (length (concat (map g fs))))" by blast
  show ?case
  proof (cases "0 < m \<and> m \<le> int (length (concat (map g fs)))")
    case True
    with f a have "files @ [f] = fs @ (later @ [f]) \<and>
        (m \<le> 0 \<or> int (length (concat (map g (butlast fs)))) < m) \<and>
        (later @ [f] = [] \<or> (0 < m \<and> m \<le> int (length (concat (map g fs)))))" by simp
    then show ?thesis by (intro exI [of _ fs] exI [of _ "later @ [f]"])
  next
    case False
    with r have l: "later = []" by simp
    with f have fs: "fs = files" by simp
    from False fs have "m \<le> 0 \<or> int (length (concat (map g (butlast (files @ [f]))))) < m"
      by simp linarith
    then have "files @ [f] = (files @ [f]) @ [] \<and>
        (m \<le> 0 \<or> int (length (concat (map g (butlast (files @ [f]))))) < m) \<and>
        ([] = [] \<or> (0 < m \<and> m \<le> int (length (concat (map g (files @ [f]))))))" by simp
    then show ?thesis by (intro exI [of _ "files @ [f]"] exI [of _ "[]"])
  qed
qed

text \<open>
  Claim C8, as stated, fails at a note without front matter: with the filter property
  empty, the note is in scope and still is not handed to \<open>extractHighlights\<close>; its
  annotation block never reaches the pool.
\<close>

theorem empty_filter_counterexample:
  "filterProperty noFilter = [] \<and>
   ''plain.md'' \<notin> set (extracted (scanFiles demoHost noFilter [plainNote] scanStart)) \<and>
   pool (scanFiles demoHost noFilter [plainNote] scanStart) = []"
  by code_simp

text \<open>
  Claim C8, amended. If the filter property or the filter value is empty, the filter
  rejects no document: every front matter passes it. The documents handed to
  \<open>extractHighlights\<close> are then exactly the documents in scope that can be read and have
  front matter, in order, up to and including the document at which the pool reaches
  the cap, and all of them when there is no cap or the cap is not reached. In the
  statement \<open>fs\<close> is that leading part of the documents in scope: the pool of the
  documents before its last one is below the cap, and either nothing comes after \<open>fs\<close>
  or the pool of \<open>fs\<close> has reached the cap. Such a part always exists.
\<close>

theorem empty_filter_passes_all:
  assumes "filterProperty st = [] \<or> filterValue st = []"
  shows "passesFilter h st frontmatter \<and>
         (maxHighlights st \<le> 0 \<longrightarrow>
            extracted (scanFiles h st files scanStart) = map path (filter (hasFrontmatter h) files)) \<and>
         (\<forall>fs later.
            files = fs @ later \<and>
            (maxHighlights st \<le> 0 \<or>
             int (length (concat (map (fileHighlights h st) (butlast fs)))) < maxHighlights st) \<and>
            (later = [] \<or>
             (0 < maxHighlights st \<and>
              maxHighlights st \<le> int (length (concat (map (fileHighlights h st) fs))))) \<longrightarrow>
            extracted (scanFiles h st files scanStart) = map path (filter (hasFrontmatter h) fs)) \<and>
         (\<exists>fs later.
            files = fs @ later \<and>
            (maxHighlights st \<le> 0 \<or>
             int (length (concat (map (fileHighlights h st) (butlast fs)))) < maxHighlights st) \<and>
            (later = [] \<or>
             (0 < maxHighlights st \<and>
              maxHighlights st \<le> int (length (concat (map (fileHighlights h st) fs))))))"
proof (intro conjI allI impI)
  show "passesFilter h st frontmatter" using assms by (rule passesFilter_skipped)
next
  assume "maxHighlights st \<le> 0"
  with extracted_scan_unlimited [OF assms, of h files scanStart]
  show "extracted (scanFiles h st files scanStart) = map path (filter (hasFrontmatter h) files)"
    by (simp add: scanStart_def)
next
  fix fs later
  assume a: "files = fs @ later \<and>
            (maxHighlights st \<le> 0 \<or>
             int (length (concat (map (fileHighlights h st) (butlast fs)))) < maxHighlights st) \<and>
            (later = [] \<or>
             (0 < maxHighlights st \<and>
              maxHighlights st \<le> int (length (concat (map (fileHighlights h st) fs)))))"
  show "extracted (scanFiles h st files scanStart) = map path (filter (hasFrontmatter h) fs)"
    by (rule extracted_leading_part [OF assms]) (use a in blast)+
next
  show "\<exists>fs later.
            files = fs @ later \<and>
            (maxHighlights st \<le> 0 \<or>
             int (length (concat (map (fileHighlights h st) (butlast fs)))) < maxHighlights st) \<and>
            (later = [] \<or>
             (0 < maxHighlights st \<and>
              maxHighlights st \<le> int (length (concat (map (fileHighlights h st) fs)))))"
    by (rule leading_part_exists)
qed

lemma corpus_counts:
  "map (\<lambda>f. length (fileHighlights demoHost noFilter f)) (plainNote # corpus) = [0, 10, 10, 10]"
  by code_simp

lemma corpus_eligible:
  "map path (filter (hasFrontmatter demoHost) (plainNote # corpus)) = [''a.md'', ''b.md'', ''c.md'']"
  by code_simp

theorem empty_filter_passes_all_witness:
  "passesFilter demoHost noFilter (JObj []) \<and>
   maxHighlights noFilter = 50 \<and>
   extracted (scanFiles demoHost noFilter (plainNote # corpus) scanStart) =
     [''a.md'', ''b.md'', ''c.md''] \<and>
   extracted (scanFiles demoHost (noFilter\<lparr>maxHighlights := 0\<rparr>) (plainNote # corpus) scanStart) =
     [''a.md'', ''b.md'', ''c.md''] \<and>
   extracted (scanFiles demoHost (noFilter\<lparr>maxHighlights := 20\<rparr>) (plainNote # corpus) scanStart) =
     [''a.md'', ''b.md'']"
proof -
  have nf: "filterProperty (noFilter\<lparr>maxHighlights := m\<rparr>) = [] \<or>
      filterValue (noFilter\<lparr>maxHighlights := m\<rparr>) = []" for m
    by (simp add: noFilter_def)
  have nf0: "filterProperty noFilter = [] \<or> filterValue noFilter = []"
    by (simp add: noFilter_def)
  have m: "maxHighlights noFilter = 50" by (simp add: noFilter_def demoSettings_def)
  have c: "fileHighlights demoHost (noFilter\<lparr>maxHighlights := k\<rparr>) = fileHighlights demoHost noFilter" for k
    by (rule fileHighlights_cap_free)
  have n: "length (fileHighlights demoHost noFilter plainNote) = 0"
      "length (fileHighlights demoHost noFilter (quoteFile ''a.md'' 10)) = 10"
      "length (fileHighlights demoHost noFilter (quoteFile ''b.md'' 10)) = 10"
      "length (fileHighlights demoHost noFilter (quoteFile ''c.md'' 10)) = 10"
    using corpus_counts by (simp_all add: corpus_def)
  have e: "map path (filter (hasFrontmatter demoHost) (plainNote # corpus)) = [''a.md'', ''b.md'', ''c.md'']"
    by (rule corpus_eligible)
  have e2: "map path (filter (hasFrontmatter demoHost)
      [plainNote, quoteFile ''a.md'' 10, quoteFile ''b.md'' 10]) = [''a.md'', ''b.md'']"
    by code_simp
  note T = empty_filter_passes_all
  from T [OF nf0, of demoHost "JObj []" "[]"]
  have 1: "passesFilter demoHost noFilter (JObj [])" by blast
  have 2: "extracted (scanFiles demoHost noFilter (plainNote # corpus) scanStart) =
      map path (filter (hasFrontmatter demoHost) (plainNote # corpus))"
  proof -
    have "plainNote # corpus = (plainNote # corpus) @ [] \<and>
        (maxHighlights noFilter \<le> 0 \<or>
         int (length (concat (map (fileHighlights demoHost noFilter) (butlast (plainNote # corpus)))))
           < maxHighlights noFilter) \<and>
        ([] = [] \<or> (0 < maxHighlights noFilter \<and> maxHighlights noFilter
           \<le> int (length (concat (map (fileHighlights demoHost noFilter) (plainNote # corpus))))))"
      by (simp add: corpus_def n m)
    with T [OF nf0, of demoHost "JObj []" "plainNote # corpus"] show ?thesis by blast
  qed
  have 3: "extracted (scanFiles demoHost (noFilter\<lparr>maxHighlights := 0\<rparr>) (plainNote # corpus) scanStart) =
      map path (filter (hasFrontmatter demoHost) (plainNote # corpus))"
    using T [OF nf [of 0], of demoHost "JObj []" "plainNote # corpus"] by simp
  have 4: "extracted (scanFiles demoHost (noFilter\<lparr>maxHighlights := 20\<rparr>) (plainNote # corpus) scanStart) =
      map path (filter (hasFrontmatter demoHost) [plainNote, quoteFile ''a.md'' 10, quoteFile ''b.md'' 10])"
  proof -
    let ?st = "noFilter\<lparr>maxHighlights := 20\<rparr>"
    let ?fs = "[plainNote, quoteFile ''a.md'' 10, quoteFile ''b.md'' 10]"
    have "plainNote # corpus = ?fs @ [quoteFile ''c.md'' 10] \<and>
        (maxHighlights ?st \<le> 0 \<or>
         int (length (concat (map (fileHighlights demoHost ?st) (butlast ?fs)))) < maxHighlights ?st) \<and>
        ([quoteFile ''c.md'' 10] = [] \<or> (0 < maxHighlights ?st \<and> maxHighlights ?st
           \<le> int (length (concat (map (fileHighlights demoHost ?st) ?fs)))))"
      by (simp add: corpus_def c n)
    with T [OF nf [of 20], of demoHost "JObj []" "plainNote # corpus"] show ?thesis by blast
  qed
  from 1 m 2 3 4 e e2 show ?thesis by simp
qed

section \<open>The filter: theorems\<close>

lemma someMatches_True_iff:
  "someMatches items target = Some True \<longleftrightarrow>
     (\<exists>pre x post s. items = pre @ x # post \<and> toStr x = Some s \<and> trim s = trim target \<and>
        (\<forall>y \<in> set pre. toStr y \<noteq> None))"
proof (induction items)
  case Nil
  show ?case by simp
next
  case (Cons item items)
  show ?case
  proof (cases "toStr item")
    case None
    have "\<not> (\<exists>pre x post s. item # items = pre @ x # post \<and> toStr x = Some s \<and>
        trim s = trim target \<and> (\<forall>y \<in> set pre. toStr y \<noteq> None))"
    proof
      assume "\<exists>pre x post s. item # items = pre @ x # post \<and> toStr x = Some s \<and>
        trim s = trim target \<and> (\<forall>y \<in> set pre. toStr y \<noteq> None)"
      then obtain pre x post s where e: "item # items = pre @ x # post" and x: "toStr x = Some s"
        and p: "\<forall>y \<in> set pre. toStr y \<noteq> None" by blast
      show False
      proof (cases pre)
        case Nil
        with e x None show False by simp
      next
        case (Cons a pre')
        with e p None show False by simp
      qed
    qed
    with None show ?thesis by simp
  next
    case (Some s)
    show ?thesis
    proof (cases "trim s = trim target")
      case True
      have "item # items = [] @ item # items \<and> toStr item = Some s \<and> trim s = trim target \<and>
          (\<forall>y \<in> set []. toStr y \<noteq> None)" using Some True by simp
      then have "\<exists>pre x post s. item # items = pre @ x # post \<and> toStr x = Some s \<and>
        trim s = trim target \<and> (\<forall>y \<in> set pre. toStr y \<noteq> None)" by blast
      with Some True show ?thesis by simp
    next
      case False
      have "(\<exists>pre x post s. item # items = pre @ x # post \<and> toStr x = Some s \<and>
          trim s = trim target \<and> (\<forall>y \<in> set pre. toStr y \<noteq> None)) \<longleftrightarrow>
        (\<exists>pre x post s. items = pre @ x # post \<and> toStr x = Some s \<and>
          trim s = trim target \<and> (\<forall>y \<in> set pre. toStr y \<noteq> None))"
      proof
        assume "\<exists>pre x post s. item # items = pre @ x # post \<and> toStr x = Some s \<and>
          trim s = trim target \<and> (\<forall>y \<in> set pre. toStr y \<noteq> None)"
        then obtain pre x post t where e: "item # items = pre @ x # post" and x: "toStr x = Some t"
          "trim t = trim target" and p: "\<forall>y \<in> set pre. toStr y \<noteq> None" by blast
        from e x Some False obtain pre' where "pre = item # pre'" by (cases pre) auto
        with e p have "items = pre' @ x # post \<and> (\<forall>y \<in> set pre'. toStr y \<noteq> None)" by simp
        with x show "\<exists>pre x post s. items = pre @ x # post \<and> toStr x = Some s \<and>
          trim s = trim target \<and> (\<forall>y \<in> set pre. toStr y \<noteq> None)" by blast
      next
        assume "\<exists>pre x post s. items = pre @ x # post \<and> toStr x = Some s \<and>
          trim s = trim target \<and> (\<forall>y \<in> set pre. toStr y \<noteq> None)"
        then obtain pre x post t where e: "items = pre @ x # post" and x: "toStr x = Some t"
          "trim t = trim target" and p: "\<forall>y \<in> set pre. toStr y \<noteq> None" by blast
        from e p Some have "item # items = (item # pre) @ x # post \<and>
            (\<forall>y \<in> set (item # pre). toStr y \<noteq> None)" by simp
        with x show "\<exists>pre x post s. item # items = pre @ x # post \<and> toStr x = Some s \<and>
          trim s = trim target \<and> (\<forall>y \<in> set pre. toStr y \<noteq> None)" by blast
      qed
      with Some False Cons.IH show ?thesis by simp
    qed
  qed
qed

lemma someMatches_False_iff:
  "someMatches items target = Some False \<longleftrightarrow>
     (\<forall>y \<in> set items. \<exists>s. toStr y = Some s \<and> trim s \<noteq> trim target)"
proof (induction items)
  case Nil
  show ?case by simp
next
  case (Cons item items)
  then show ?case by (cases "toStr item") auto
qed

lemma someMatches_None_iff:
  "someMatches items target = None \<longleftrightarrow>
     (\<exists>pre x post. items = pre @ x # post \<and> toStr x = None \<and>
        (\<forall>y \<in> set pre. \<exists>s. toStr y = Some s \<and> trim s \<noteq> trim target))"
proof (induction items)
  case Nil
  show ?case by simp
next
  case (Cons item items)
  show ?case
  proof (cases "toStr item")
    case None
    have "item # items = [] @ item # items \<and> toStr item = None \<and>
        (\<forall>y \<in> set []. \<exists>s. toStr y = Some s \<and> trim s \<noteq> trim target)" using None by simp
    then have "\<exists>pre x post. item # items = pre @ x # post \<and> toStr x = None \<and>
        (\<forall>y \<in> set pre. \<exists>s. toStr y = Some s \<and> trim s \<noteq> trim target)" by blast
    with None show ?thesis by simp
  next
    case (Some s)
    show ?thesis
    proof (cases "trim s = trim target")
      case True
      have "\<not> (\<exists>pre x post. item # items = pre @ x # post \<and> toStr x = None \<and>
        (\<forall>y \<in> set pre. \<exists>s. toStr y = Some s \<and> trim s \<noteq> trim target))"
      proof
        assume "\<exists>pre x post. item # items = pre @ x # post \<and> toStr x = None \<and>
          (\<forall>y \<in> set pre. \<exists>s. toStr y = Some s \<and> trim s \<noteq> trim target)"
        then obtain pre x post where e: "item # items = pre @ x # post" and x: "toStr x = None"
          and p: "\<forall>y \<in> set pre. \<exists>s. toStr y = Some s \<and> trim s \<noteq> trim target" by blast
        show False
        proof (cases pre)
          case Nil
          with e x Some show False by simp
        next
          case (Cons a pre')
          with e p Some True show False by simp
        qed
      qed
      with Some True show ?thesis by simp
    next
      case False
      have "(\<exists>pre x post. item # items = pre @ x # post \<and> toStr x = None \<and>
          (\<forall>y \<in> set pre. \<exists>s. toStr y = Some s \<and> trim s \<noteq> trim target)) \<longleftrightarrow>
        (\<exists>pre x post. items = pre @ x # post \<and> toStr x = None \<and>
          (\<forall>y \<in> set pre. \<exists>s. toStr y = Some s \<and> trim s \<noteq> trim target))"
      proof
        assume "\<exists>pre x post. item # items = pre @ x # post \<and> toStr x = None \<and>
          (\<forall>y \<in> set pre. \<exists>s. toStr y = Some s \<and> trim s \<noteq> trim target)"
        then obtain pre x post where e: "item # items = pre @ x # post" and x: "toStr x = None"
          and p: "\<forall>y \<in> set pre. \<exists>s. toStr y = Some s \<and> trim s \<noteq> trim target" by blast
        from e x Some obtain pre' where "pre = item # pre'" by (cases pre) auto
        with e p have "items = pre' @ x # post \<and>
            (\<forall>y \<in> set pre'. \<exists>s. toStr y = Some s \<and> trim s \<noteq> trim target)" by simp
        with x show "\<exists>pre x post. items = pre @ x # post \<and> toStr x = None \<and>
          (\<forall>y \<in> set pre. \<exists>s. toStr y = Some s \<and> trim s \<noteq> trim target)" by blast
      next
        assume "\<exists>pre x post. items = pre @ x # post \<and> toStr x = None \<and>
          (\<forall>y \<in> set pre. \<exists>s. toStr y = Some s \<and> trim s \<noteq> trim target)"
        then obtain pre x post where e: "items = pre @ x # post" and x: "toStr x = None"
          and p: "\<forall>y \<in> set pre. \<exists>s. toStr y = Some s \<and> trim s \<noteq> trim target" by blast
        from e p Some False have "item # items = (item # pre) @ x # post \<and>
            (\<forall>y \<in> set (item # pre). \<exists>s. toStr y = Some s \<and> trim s \<noteq> trim target)" by simp
        with x show "\<exists>pre x post. item # items = pre @ x # post \<and> toStr x = None \<and>
          (\<forall>y \<in> set pre. \<exists>s. toStr y = Some s \<and> trim s \<noteq> trim target)" by blast
      qed
      with Some False Cons.IH show ?thesis by simp
    qed
  qed
qed

lemma those_map_None: "those (map f xs) = None \<longleftrightarrow> (\<exists>x \<in> set xs. f x = None)"
  by (induction xs) (simp_all split: option.split)

lemma toStr_list_None:
  "toStr (JArr xs) = None \<longleftrightarrow> (\<exists>x \<in> set xs. x \<noteq> JNull \<and> x \<noteq> JUndefined \<and> toStr x = None)"
proof -
  have "toStr (JArr xs) = None \<longleftrightarrow>
      (\<exists>x \<in> set xs. (if x = JNull \<or> x = JUndefined then Some [] else toStr x) = None)"
    by (simp add: those_map_None)
  moreover have "(if x = JNull \<or> x = JUndefined then Some [] else toStr x) = None \<longleftrightarrow>
      x \<noteq> JNull \<and> x \<noteq> JUndefined \<and> toStr x = None" for x
    by simp
  ultimately show ?thesis by simp
qed

lemma toStr_mapping: "toStr (JObj kvs) = None \<longleftrightarrow> ''toString'' \<in> fst ` set kvs"
  by simp

lemma filterMatches_list:
  "readProperty h fm p = JArr items \<Longrightarrow> filterMatches h fm p target = someMatches items target"
  by (simp add: filterMatches_def)

lemma filterMatches_undefined:
  "readProperty h fm p = JUndefined \<Longrightarrow> filterMatches h fm p target = Some False"
  by (simp add: filterMatches_def)

lemma filterMatches_json:
  "readProperty h fm p = JStr s \<Longrightarrow> jsonParse h s = Some (JArr items) \<Longrightarrow>
   filterMatches h fm p target =
     (case someMatches items target of None \<Rightarrow> Some (trim s = trim target) | Some b \<Rightarrow> Some b)"
  by (simp add: filterMatches_def)

lemma filterMatches_string:
  assumes "readProperty h fm p = JStr s" "\<forall>items. jsonParse h s \<noteq> Some (JArr items)"
  shows "filterMatches h fm p target = Some (trim s = trim target)"
proof (cases "jsonParse h s")
  case None
  with assms show ?thesis by (simp add: filterMatches_def)
next
  case (Some v)
  with assms(2) have "\<forall>items. v \<noteq> JArr items" by simp
  with Some assms(1) show ?thesis by (cases v) (simp_all add: filterMatches_def)
qed

lemma filterMatches_other:
  assumes "readProperty h fm p = v" "v \<noteq> JUndefined" "\<forall>items. v \<noteq> JArr items" "\<forall>s. v \<noteq> JStr s"
  shows "filterMatches h fm p target = map_option (\<lambda>t. trim t = trim target) (toStr v)"
  using assms by (cases v) (simp_all add: filterMatches_def)

lemma toStr_scalar:
  "(\<forall>kvs. x \<noteq> JObj kvs) \<and> (\<forall>xs. x \<noteq> JArr xs) \<Longrightarrow> toStr x \<noteq> None"
  by (cases x) simp_all

lemma readProperty_mapping:
  "readProperty h (JObj kvs) p =
     (case map_of kvs p of None \<Rightarrow> inherited h (JObj kvs) p | Some x \<Rightarrow> x)"
  by (simp add: readProperty_def)

text \<open>
  Claim C2, as stated, fails in two ways. The property is read with
  \<^verbatim>\<open>frontmatter[filterProperty]\<close>, which also finds what the mapping inherits: with the
  filter property \<^verbatim>\<open>constructor\<close> and the text of that function for the filter value, a
  document matches although its front matter holds no such property. And a list value
  whose first element is a mapping with an entry \<^verbatim>\<open>toString\<close> makes \<^verbatim>\<open>String(item)\<close>
  throw: the exception ends the round of the document, which is skipped although the
  second element of the list is the target.
\<close>

theorem filter_evaluator_counterexample:
  "map_of [(''a'', JNum ''1'')] ''constructor'' = None \<and>
   filterMatches protoHost (JObj [(''a'', JNum ''1'')]) ''constructor''
     ''function Object() { [native code] }'' = Some True \<and>
   passesFilter protoHost
     (demoSettings\<lparr>filterProperty := ''constructor'',
        filterValue := ''function Object() { [native code] }''\<rparr>)
     (JObj [(''a'', JNum ''1'')]) \<and>
   oddList = JArr [JObj [(''toString'', JNum ''1'')], JStr ''Book Highlights''] \<and>
   toStr (JStr ''Book Highlights'') = Some ''Book Highlights'' \<and>
   toStr (JObj [(''toString'', JNum ''1'')]) = None \<and>
   filterMatches demoHost (JObj [(''subtopic'', oddList)]) ''subtopic'' ''Book Highlights'' = None \<and>
   \<not> passesFilter demoHost demoSettings (JObj [(''subtopic'', oddList)])"
  by (simp add: filterMatches_def passesFilter_def readProperty_def protoHost_def demoHost_def
      demoSettings_def oddList_def)

text \<open>
  Claim C2, amended. With a non-empty filter property and a non-empty filter value a
  document passes the filter exactly when the evaluation returns \<^verbatim>\<open>true\<close>; a conversion
  that throws ends the round of the document like a mismatch. The value compared is
  the own entry of the front matter under the property and, when there is none, what
  the mapping inherits under that name. \<^verbatim>\<open>undefined\<close> is no match. A list is gone
  through in order: it matches at the first element whose conversion, trimmed, is the
  trimmed target, it is no match when every element converts and differs, and it
  throws at the first element that cannot be converted when those before it differ. A
  string that \<^verbatim>\<open>JSON.parse\<close> reads as an array is treated as that array, except that an
  element that cannot be converted sends the evaluation back to the comparison of the
  string itself; any other string is compared itself. Any other value is converted and
  compared, and throws when it cannot be converted. The conversion fails exactly at a
  mapping with an own entry \<^verbatim>\<open>toString\<close> and at a list with an element, other than
  \<^verbatim>\<open>null\<close> and \<^verbatim>\<open>undefined\<close>, whose conversion fails. The three examples of the
  specification hold, the third on a host that lets the empty mapping inherit nothing
  under \<^verbatim>\<open>subtopic\<close>.
\<close>

theorem filter_evaluator_cases:
  assumes "filterProperty st \<noteq> []" and "filterValue st \<noteq> []"
  shows
   "(passesFilter h st (JObj kvs) \<longleftrightarrow>
       filterMatches h (JObj kvs) (filterProperty st) (filterValue st) = Some True) \<and>
    readProperty h (JObj kvs) (filterProperty st) =
      (case map_of kvs (filterProperty st) of
         None \<Rightarrow> inherited h (JObj kvs) (filterProperty st)
       | Some x \<Rightarrow> x) \<and>
    (readProperty h (JObj kvs) (filterProperty st) = JUndefined \<longrightarrow>
       filterMatches h (JObj kvs) (filterProperty st) (filterValue st) = Some False) \<and>
    (\<forall>items. readProperty h (JObj kvs) (filterProperty st) = JArr items \<longrightarrow>
       filterMatches h (JObj kvs) (filterProperty st) (filterValue st) =
         someMatches items (filterValue st)) \<and>
    (\<forall>s items. readProperty h (JObj kvs) (filterProperty st) = JStr s \<and>
         jsonParse h s = Some (JArr items) \<longrightarrow>
       filterMatches h (JObj kvs) (filterProperty st) (filterValue st) =
         (case someMatches items (filterValue st) of
            None \<Rightarrow> Some (trim s = trim (filterValue st))
          | Some b \<Rightarrow> Some b)) \<and>
    (\<forall>s. readProperty h (JObj kvs) (filterProperty st) = JStr s \<and>
         (\<forall>items. jsonParse h s \<noteq> Some (JArr items)) \<longrightarrow>
       filterMatches h (JObj kvs) (filterProperty st) (filterValue st) =
         Some (trim s = trim (filterValue st))) \<and>
    (\<forall>v. readProperty h (JObj kvs) (filterProperty st) = v \<and> v \<noteq> JUndefined \<and>
         (\<forall>items. v \<noteq> JArr items) \<and> (\<forall>s. v \<noteq> JStr s) \<longrightarrow>
       filterMatches h (JObj kvs) (filterProperty st) (filterValue st) =
         map_option (\<lambda>t. trim t = trim (filterValue st)) (toStr v)) \<and>
    (someMatches ys target = Some True \<longleftrightarrow>
       (\<exists>pre x post s. ys = pre @ x # post \<and> toStr x = Some s \<and> trim s = trim target \<and>
          (\<forall>y \<in> set pre. toStr y \<noteq> None))) \<and>
    (someMatches ys target = Some False \<longleftrightarrow>
       (\<forall>y \<in> set ys. \<exists>s. toStr y = Some s \<and> trim s \<noteq> trim target)) \<and>
    (someMatches ys target = None \<longleftrightarrow>
       (\<exists>pre x post. ys = pre @ x # post \<and> toStr x = None \<and>
          (\<forall>y \<in> set pre. \<exists>s. toStr y = Some s \<and> trim s \<noteq> trim target))) \<and>
    (toStr (JObj es) = None \<longleftrightarrow> ''toString'' \<in> fst ` set es) \<and>
    (toStr (JArr ys) = None \<longleftrightarrow>
       (\<exists>x \<in> set ys. x \<noteq> JNull \<and> x \<noteq> JUndefined \<and> toStr x = None)) \<and>
    ((\<forall>kvs. w \<noteq> JObj kvs) \<and> (\<forall>xs. w \<noteq> JArr xs) \<longrightarrow> toStr w \<noteq> None) \<and>
    filterMatches h (JObj [(''subtopic'', JArr [JStr ''Book Highlights'', JStr ''Fiction''])])
      ''subtopic'' ''Book Highlights'' = Some True \<and>
    (jsonParse h otherJson = Some (JArr [JStr ''Other'']) \<longrightarrow>
       filterMatches h (JObj [(''subtopic'', JStr otherJson)]) ''subtopic'' ''Book Highlights''
         = Some False) \<and>
    (inherited h (JObj []) ''subtopic'' = JUndefined \<longrightarrow>
       filterMatches h (JObj []) ''subtopic'' ''Book Highlights'' = Some False)"
proof -
  let ?p = "filterProperty st" and ?t = "filterValue st"
  have a: "passesFilter h st (JObj kvs) \<longleftrightarrow> filterMatches h (JObj kvs) ?p ?t = Some True"
    using assms by (simp add: passesFilter_def)
  have b: "readProperty h (JObj kvs) ?p =
      (case map_of kvs ?p of None \<Rightarrow> inherited h (JObj kvs) ?p | Some x \<Rightarrow> x)"
    by (rule readProperty_mapping)
  have c: "readProperty h (JObj kvs) ?p = JUndefined \<longrightarrow>
       filterMatches h (JObj kvs) ?p ?t = Some False"
    using filterMatches_undefined by blast
  have d: "\<forall>items. readProperty h (JObj kvs) ?p = JArr items \<longrightarrow>
       filterMatches h (JObj kvs) ?p ?t = someMatches items ?t"
    using filterMatches_list by blast
  have e: "\<forall>s items. readProperty h (JObj kvs) ?p = JStr s \<and> jsonParse h s = Some (JArr items) \<longrightarrow>
       filterMatches h (JObj kvs) ?p ?t =
         (case someMatches items ?t of None \<Rightarrow> Some (trim s = trim ?t) | Some b \<Rightarrow> Some b)"
    using filterMatches_json by blast
  have f: "\<forall>s. readProperty h (JObj kvs) ?p = JStr s \<and>
         (\<forall>items. jsonParse h s \<noteq> Some (JArr items)) \<longrightarrow>
       filterMatches h (JObj kvs) ?p ?t = Some (trim s = trim ?t)"
    using filterMatches_string by blast
  have g: "\<forall>v. readProperty h (JObj kvs) ?p = v \<and> v \<noteq> JUndefined \<and>
         (\<forall>items. v \<noteq> JArr items) \<and> (\<forall>s. v \<noteq> JStr s) \<longrightarrow>
       filterMatches h (JObj kvs) ?p ?t = map_option (\<lambda>t. trim t = trim ?t) (toStr v)"
    using filterMatches_other by blast
  have x1: "filterMatches h (JObj [(''subtopic'', JArr [JStr ''Book Highlights'', JStr ''Fiction''])])
         ''subtopic'' ''Book Highlights'' = Some True"
    by (simp add: filterMatches_def readProperty_def)
  have x2: "jsonParse h otherJson = Some (JArr [JStr ''Other'']) \<longrightarrow>
          filterMatches h (JObj [(''subtopic'', JStr otherJson)]) ''subtopic'' ''Book Highlights''
            = Some False"
  proof
    assume "jsonParse h otherJson = Some (JArr [JStr ''Other''])"
    moreover have "trim ''Other'' \<noteq> trim ''Book Highlights''" by code_simp
    ultimately show "filterMatches h (JObj [(''subtopic'', JStr otherJson)]) ''subtopic''
        ''Book Highlights'' = Some False"
      by (simp add: filterMatches_def readProperty_def)
  qed
  have x3: "inherited h (JObj []) ''subtopic'' = JUndefined \<longrightarrow>
          filterMatches h (JObj []) ''subtopic'' ''Book Highlights'' = Some False"
    by (simp add: filterMatches_def readProperty_def)
  from a b c d e f g someMatches_True_iff [of ys target] someMatches_False_iff [of ys target]
    someMatches_None_iff [of ys target] toStr_mapping [of es] toStr_list_None [of ys]
    toStr_scalar [of w] x1 x2 x3
  show ?thesis by blast
qed

theorem filter_evaluator_cases_witness:
  "passesFilter otherHost demoSettings
     (JObj [(''subtopic'', JArr [JStr ''Book Highlights'', JStr ''Fiction''])]) \<and>
   \<not> passesFilter otherHost demoSettings (JObj [(''subtopic'', JStr otherJson)]) \<and>
   \<not> passesFilter otherHost demoSettings (JObj []) \<and>
   passesFilter otherHost demoSettings (JObj [(''subtopic'', JStr '' Book Highlights '')]) \<and>
   filterMatches otherHost (JObj [(''subtopic'', oddList)]) ''subtopic'' ''Book Highlights'' = None \<and>
   filterMatches otherHost (JObj [(''subtopic'', JNum ''7'')]) ''subtopic'' ''Book Highlights''
     = Some False"
proof -
  have a: "filterProperty demoSettings \<noteq> []" by (simp add: demoSettings_def)
  have b: "filterValue demoSettings \<noteq> []" by (simp add: demoSettings_def)
  have p: "filterProperty demoSettings = ''subtopic''" "filterValue demoSettings = ''Book Highlights''"
    by (simp_all add: demoSettings_def)
  have js: "jsonParse otherHost otherJson = Some (JArr [JStr ''Other''])"
    by (simp add: otherHost_def)
  have ih: "inherited otherHost v k = JUndefined" for v k
    by (simp add: otherHost_def demoHost_def)
  note T = filter_evaluator_cases [OF a b, of otherHost, unfolded p]
  note c2 = conjunct2
  note Tpass = T [THEN conjunct1]
  note Tread = T [THEN c2, THEN conjunct1]
  note Tlist = T [THEN c2, THEN c2, THEN c2, THEN conjunct1, rule_format]
  note Tstring = T [THEN c2, THEN c2, THEN c2, THEN c2, THEN c2, THEN conjunct1, rule_format]
  note Tother = T [THEN c2, THEN c2, THEN c2, THEN c2, THEN c2, THEN c2, THEN conjunct1, rule_format]
  note Tnone = T [THEN c2, THEN c2, THEN c2, THEN c2, THEN c2, THEN c2, THEN c2, THEN c2, THEN c2,
    THEN conjunct1]
  note Tobj = T [THEN c2, THEN c2, THEN c2, THEN c2, THEN c2, THEN c2, THEN c2, THEN c2, THEN c2,
    THEN c2, THEN conjunct1]
  note Tex = T [THEN c2, THEN c2, THEN c2, THEN c2, THEN c2, THEN c2, THEN c2, THEN c2, THEN c2,
    THEN c2, THEN c2, THEN c2, THEN c2]
  have 1: "passesFilter otherHost demoSettings
      (JObj [(''subtopic'', JArr [JStr ''Book Highlights'', JStr ''Fiction''])])"
    using Tex [THEN conjunct1] by (simp add: Tpass)
  have 2: "\<not> passesFilter otherHost demoSettings (JObj [(''subtopic'', JStr otherJson)])"
    using Tex [THEN c2, THEN conjunct1, THEN mp, OF js] by (simp add: Tpass)
  have 3: "\<not> passesFilter otherHost demoSettings (JObj [])"
    using Tex [THEN c2, THEN c2, THEN mp, OF ih] by (simp add: Tpass)
  have 4: "passesFilter otherHost demoSettings (JObj [(''subtopic'', JStr '' Book Highlights '')])"
  proof -
    let ?kvs = "[(''subtopic'', JStr '' Book Highlights '')]"
    have r: "readProperty otherHost (JObj ?kvs) ''subtopic'' = JStr '' Book Highlights ''"
      by (simp add: Tread)
    have n: "\<forall>items. jsonParse otherHost '' Book Highlights '' \<noteq> Some (JArr items)"
      by (simp add: otherHost_def otherJson_def demoHost_def)
    have e: "trim '' Book Highlights '' = trim ''Book Highlights''" by code_simp
    have "filterMatches otherHost (JObj ?kvs) ''subtopic'' ''Book Highlights'' =
        Some (trim '' Book Highlights '' = trim ''Book Highlights'')"
      by (rule Tstring) (use r n in blast)
    with e show ?thesis by (simp add: Tpass)
  qed
  have 5: "filterMatches otherHost (JObj [(''subtopic'', oddList)]) ''subtopic'' ''Book Highlights'' = None"
  proof -
    let ?kvs = "[(''subtopic'', oddList)]"
    let ?items = "[JObj [(''toString'', JNum ''1'')], JStr ''Book Highlights'']"
    have r: "readProperty otherHost (JObj ?kvs) ''subtopic'' = JArr ?items"
      by (simp add: Tread oddList_def)
    have t: "toStr (JObj [(''toString'', JNum ''1'')]) = None"
      by (simp add: Tobj)
    have "?items = [] @ JObj [(''toString'', JNum ''1'')] # [JStr ''Book Highlights''] \<and>
        toStr (JObj [(''toString'', JNum ''1'')]) = None \<and>
        (\<forall>y \<in> set []. \<exists>s. toStr y = Some s \<and> trim s \<noteq> trim ''Book Highlights'')"
      using t by simp
    then have "\<exists>pre x post. ?items = pre @ x # post \<and> toStr x = None \<and>
        (\<forall>y \<in> set pre. \<exists>s. toStr y = Some s \<and> trim s \<noteq> trim ''Book Highlights'')"
      by (intro exI)
    then have "someMatches ?items ''Book Highlights'' = None" by (simp only: Tnone)
    moreover have "filterMatches otherHost (JObj ?kvs) ''subtopic'' ''Book Highlights'' =
        someMatches ?items ''Book Highlights''" by (rule Tlist) (rule r)
    ultimately show ?thesis by simp
  qed
  have 6: "filterMatches otherHost (JObj [(''subtopic'', JNum ''7'')]) ''subtopic'' ''Book Highlights''
      = Some False"
  proof -
    let ?kvs = "[(''subtopic'', JNum ''7'')]"
    have r: "readProperty otherHost (JObj ?kvs) ''subtopic'' = JNum ''7''"
      by (simp add: Tread)
    have "filterMatches otherHost (JObj ?kvs) ''subtopic'' ''Book Highlights'' =
        map_option (\<lambda>t. trim t = trim ''Book Highlights'') (toStr (JNum ''7''))"
      by (rule Tother) (simp add: r)
    moreover have "trim ''7'' \<noteq> trim ''Book Highlights''" by code_simp
    ultimately show ?thesis by simp
  qed
  from 1 2 3 4 5 6 show ?thesis by blast
qed

section \<open>The sub-field rules: theorems\<close>


















lemma startsWith_append [simp]: "startsWith p (p @ t)"
  by (induction p) simp_all

lemma drop_literal: "length p = n \<Longrightarrow> drop n (p @ t) = t"
  by simp



lemma number_at_None: "\<not> startsWith '': '' r \<Longrightarrow> numberTail r = None"
  by (simp add: numberTail_def)
















section \<open>The shuffle of the sampler: theorems\<close>

lemma sampleOf_eq:
  "sampleOf sortRandom st hpool =
     (if hpool = [] then []
      else slice0 (sortRandom hpool) (min (randomHighlightsCount st) (int (length hpool))))"
  by (simp add: sampleOf_def storeOf_def getRandomHighlights_def alloc_def Let_def)

lemma insertionPoint_done: "insertionPoint n n k = k n"
  by (subst insertionPoint.simps) simp

lemma insertionPoint_one: "insertionPoint 0 (Suc 0) k = Call (k 0) (k (Suc 0)) (k (Suc 0))"
  by (subst insertionPoint.simps) (simp add: insertionPoint_done)

lemma insertionPoint_two:
  "insertionPoint 0 (Suc (Suc 0)) k =
     Call (Call (k 0) (k (Suc 0)) (k (Suc 0))) (k (Suc (Suc 0))) (k (Suc (Suc 0)))"
  by (subst insertionPoint.simps) (simp add: insertionPoint_done insertionPoint_one)

lemma v8Sort_three:
  "v8Sort [a, b, c] =
     Call (Call (Return [c, b, a])
             (Call (Call (Return [c, b, a]) (Return [b, c, a]) (Return [b, c, a]))
                (Return [b, a, c]) (Return [b, a, c]))
             (Call (Call (Return [c, b, a]) (Return [b, c, a]) (Return [b, c, a]))
                (Return [b, a, c]) (Return [b, a, c])))
          (Call (Call (Call (Return [c, a, b]) (Return [a, c, b]) (Return [a, c, b]))
                   (Return [a, b, c]) (Return [a, b, c]))
             (Return [a, b, c]) (Return [a, b, c]))
          (Call (Call (Call (Return [c, a, b]) (Return [a, c, b]) (Return [a, c, b]))
                   (Return [a, b, c]) (Return [a, b, c]))
             (Return [a, b, c]) (Return [a, b, c]))"
  by (simp add: v8Sort_def afterRun_def insertionPoint_two numeral_2_eq_2)

lemma three_texts: "map text threePool = [''one'', ''two'', ''three'']"
  by code_simp

lemma sign_sequences:
  "signSeqs 4 =
     [[Negative, Negative, Negative, Negative], [Positive, Negative, Negative, Negative],
      [Negative, Positive, Negative, Negative], [Positive, Positive, Negative, Negative],
      [Negative, Negative, Positive, Negative], [Positive, Negative, Positive, Negative],
      [Negative, Positive, Positive, Negative], [Positive, Positive, Positive, Negative],
      [Negative, Negative, Negative, Positive], [Positive, Negative, Negative, Positive],
      [Negative, Positive, Negative, Positive], [Positive, Positive, Negative, Positive],
      [Negative, Negative, Positive, Positive], [Positive, Negative, Positive, Positive],
      [Negative, Positive, Positive, Positive], [Positive, Positive, Positive, Positive]]"
  by code_simp

lemma v8_three_selections:
  "map (map text) (selections v8Sort demoSettings threePool 4) =
     [[''three'', ''two'', ''one''], [''three'', ''one'', ''two''],
      [''three'', ''two'', ''one''], [''one'', ''two'', ''three''],
      [''three'', ''two'', ''one''], [''one'', ''two'', ''three''],
      [''two'', ''one'', ''three''], [''one'', ''two'', ''three''],
      [''three'', ''two'', ''one''], [''one'', ''three'', ''two''],
      [''two'', ''three'', ''one''], [''one'', ''two'', ''three''],
      [''three'', ''two'', ''one''], [''one'', ''two'', ''three''],
      [''two'', ''one'', ''three''], [''one'', ''two'', ''three'']]"
  by code_simp

lemma v8_three_first:
  "map (map text) (selections v8Sort (demoSettings\<lparr>randomHighlightsCount := 1\<rparr>) threePool 4) =
     [[''three''], [''three''], [''three''], [''one''], [''three''], [''one''],
      [''two''], [''one''], [''three''], [''one''], [''two''], [''one''],
      [''three''], [''one''], [''two''], [''one'']]"
  by code_simp

lemma v8_three_calls: "calls (v8Sort threePool) = 4 \<and> fewestCalls (v8Sort threePool) = 2"
  by code_simp

lemma v8_three_ways:
  "map (\<lambda>js. ways v8Sort demoSettings threePool 4 (map ((!) threePool) js))
     [[0, 1, 2], [2, 1, 0], [1, 0, 2], [1, 2, 0], [2, 0, 1], [0, 2, 1]] = [6, 5, 2, 1, 1, 1]"
  by code_simp

lemma sample_of_empty: "sampleOf sortRandom st [] = []"
  by (simp add: sampleOf_eq)

lemma insertionPoint_result:
  "left \<le> right \<Longrightarrow>
   \<exists>j i'. left \<le> j \<and> j \<le> right \<and>
     runSort (insertionPoint left right k) random i = runSort (k j) random i'"
proof (induction left right k arbitrary: i rule: insertionPoint.induct)
  case (1 left right k)
  show ?case
  proof (cases "left < right")
    case False
    with "1.prems" have "left = right" by simp
    then have "runSort (insertionPoint left right k) random i = runSort (k left) random i"
      by (simp add: insertionPoint.simps [of right right k])
    with "1.prems" show ?thesis by blast
  next
    case True
    let ?mid = "left + (right - left) div 2"
    from True have m: "left \<le> ?mid" "Suc ?mid \<le> right" by simp_all
    have e: "insertionPoint left right k =
        Call (insertionPoint left ?mid k) (insertionPoint (Suc ?mid) right k)
          (insertionPoint (Suc ?mid) right k)"
      using True by (subst insertionPoint.simps) simp
    show ?thesis
    proof (cases "random i = Negative")
      case neg: True
      from "1.IH"(1) [OF True m(1), of "Suc i"] obtain j i' where
        "left \<le> j" "j \<le> ?mid" "runSort (insertionPoint left ?mid k) random (Suc i) = runSort (k j) random i'"
        by blast
      moreover from this m have "j \<le> right" by simp
      ultimately show ?thesis using e neg by auto
    next
      case False
      from "1.IH"(2) [OF True m(2), of "Suc i"] obtain j i' where
        j: "Suc ?mid \<le> j" "j \<le> right"
          "runSort (insertionPoint (Suc ?mid) right k) random (Suc i) = runSort (k j) random i'"
        by blast
      from j have "left \<le> j" by simp
      moreover from False e j(3) have
        "runSort (insertionPoint left right k) random i = runSort (k j) random i'"
        by (cases "random i") simp_all
      ultimately show ?thesis using j(2) by blast
    qed
  qed
qed

lemma countRun_result:
  "\<exists>r' i'. r \<le> r' \<and> r' \<le> r + m \<and>
     runSort (countRun d r m k) random i = runSort (k r') random i'"
proof (induction m arbitrary: r i)
  case 0
  have "r \<le> r \<and> r \<le> r + 0 \<and> runSort (countRun d r 0 k) random i = runSort (k r) random i"
    by simp
  then show ?case by blast
next
  case (Suc m)
  from Suc [of "Suc r" "Suc i"] obtain r' i' where
    c: "Suc r \<le> r'" "r' \<le> Suc r + m"
      "runSort (countRun d (Suc r) m k) random (Suc i) = runSort (k r') random i'" by blast
  have stop: "r \<le> r \<and> r \<le> r + Suc m" by simp
  from c have go: "r \<le> r' \<and> r' \<le> r + Suc m" by simp
  show ?case
  proof (cases "(random i = Negative) = d")
    case True
    then have "runSort (countRun d r (Suc m) k) random i = runSort (k r') random i'"
      using c(3) by (cases "random i"; cases d) simp_all
    with go show ?thesis by blast
  next
    case False
    then have "runSort (countRun d r (Suc m) k) random i = runSort (k r) random (Suc i)"
      by (cases "random i"; cases d) simp_all
    with stop show ?thesis by blast
  qed
qed

lemma insert_rearranges:
  assumes "j \<le> start" "start < length work"
  shows "mset (take j work @ work ! start # drop j (take start work) @ drop (Suc start) work) = mset work"
    and "length (take j work @ work ! start # drop j (take start work) @ drop (Suc start) work) = length work"
proof -
  have w: "work = take start work @ work ! start # drop (Suc start) work"
    using assms(2) by (simp add: id_take_nth_drop [symmetric])
  have t: "take start work = take j work @ drop j (take start work)"
  proof -
    have a: "take j (take start work) @ drop j (take start work) = take start work"
      by (rule append_take_drop_id)
    from assms(1) have b: "take j (take start work) = take j work" by (simp add: min_def)
    from a [unfolded b] show ?thesis by (rule sym)
  qed
  have "mset work = mset (take start work) + {#work ! start#} + mset (drop (Suc start) work)"
    by (subst w) simp
  also have "mset (take start work) = mset (take j work) + mset (drop j (take start work))"
    by (subst t) simp
  finally show "mset (take j work @ work ! start # drop j (take start work) @ drop (Suc start) work) = mset work"
    by simp
  from assms show "length (take j work @ work ! start # drop j (take start work) @ drop (Suc start) work) = length work"
    by simp
qed

lemma binaryInsertion_rearranges:
  "start + n = length work \<Longrightarrow> mset (runSort (binaryInsertion n work start) random i) = mset work"
proof (induction n arbitrary: work start i)
  case 0
  show ?case by simp
next
  case (Suc n)
  let ?k = "\<lambda>left. binaryInsertion n
          (take left work @ work ! start # drop left (take start work) @ drop (Suc start) work)
          (Suc start)"
  from insertionPoint_result [of 0 start ?k random i] obtain j i' where
    j: "j \<le> start" and r: "runSort (insertionPoint 0 start ?k) random i = runSort (?k j) random i'"
    by auto
  from Suc.prems have s: "start < length work" by simp
  let ?work = "take j work @ work ! start # drop j (take start work) @ drop (Suc start) work"
  from insert_rearranges [OF j s] have m: "mset ?work = mset work" and l: "length ?work = length work"
    by simp_all
  from Suc.prems l have "Suc start + n = length ?work" by simp
  from Suc.IH [OF this, of i'] m r show ?case by simp
qed

lemma afterRun_rearranges:
  "r \<le> length xs \<Longrightarrow> mset (runSort (afterRun xs d r) random i) = mset xs"
proof -
  assume r: "r \<le> length xs"
  let ?work = "if d then rev (take r xs) @ drop r xs else xs"
  have m: "mset ?work = mset xs"
  proof (cases d)
    case True
    have "mset (rev (take r xs) @ drop r xs) = mset (take r xs @ drop r xs)"
      by (simp only: mset_append mset_rev)
    also have "\<dots> = mset xs" by (simp only: append_take_drop_id)
    finally show ?thesis using True by simp
  next
    case False
    then show ?thesis by simp
  qed
  have l: "length ?work = length xs" using r by simp
  from r l have "r + (length xs - r) = length ?work" by simp
  from binaryInsertion_rearranges [OF this, of random i] m show ?thesis
    by (simp add: afterRun_def)
qed

lemma v8Sort_rearranges: "mset (runSort (v8Sort xs) random i) = mset xs"
proof (cases "length xs < 2")
  case True
  then show ?thesis by (simp add: v8Sort_def)
next
  case False
  have run: "mset (runSort (countRun d 2 (length xs - 2) (afterRun xs d)) random (Suc i)) = mset xs" for d
  proof -
    from countRun_result [of 2 "length xs - 2" d "afterRun xs d" random "Suc i"] obtain r' i' where
      c: "2 \<le> r'" "r' \<le> 2 + (length xs - 2)"
        "runSort (countRun d 2 (length xs - 2) (afterRun xs d)) random (Suc i) =
           runSort (afterRun xs d r') random i'" by blast
    from c(2) False have "r' \<le> length xs" by simp
    from afterRun_rearranges [OF this, of d random i'] c(3) show ?thesis by simp
  qed
  from False run [of True] run [of False] show ?thesis
    by (cases "random i") (simp_all add: v8Sort_def)
qed

lemma sample_length:
  assumes "\<And>xs. mset (sortRandom xs) = mset xs"
  shows "length (sampleOf sortRandom st hpool) =
     (if randomHighlightsCount st < 0 then nat (int (length hpool) + randomHighlightsCount st)
      else min (nat (randomHighlightsCount st)) (length hpool))"
proof -
  have l: "length (sortRandom hpool) = length hpool"
    using assms [of hpool] by (metis size_mset)
  show ?thesis
  proof (cases "hpool = []")
    case True
    then show ?thesis by (simp add: sampleOf_eq)
  next
    case False
    then have p: "0 < length hpool" by simp
    show ?thesis
    proof (cases "randomHighlightsCount st < 0")
      case True
      then have "min (randomHighlightsCount st) (int (length hpool)) = randomHighlightsCount st"
        by simp
      with True False p show ?thesis by (simp add: sampleOf_eq slice0_def l)
    next
      case False
      then have "nat (min (randomHighlightsCount st) (int (length hpool))) =
          min (nat (randomHighlightsCount st)) (length hpool)" by linarith
      with False \<open>hpool \<noteq> []\<close> show ?thesis by (simp add: sampleOf_eq slice0_def l)
    qed
  qed
qed

lemma sample_from_pool:
  assumes "\<And>xs. mset (sortRandom xs) = mset xs"
  shows "mset (sampleOf sortRandom st hpool) \<subseteq># mset hpool"
proof (cases "hpool = []")
  case True
  then show ?thesis by (simp add: sampleOf_eq)
next
  case False
  have "mset (take n (sortRandom hpool)) \<subseteq># mset (sortRandom hpool)" for n
    by (metis append_take_drop_id mset_subset_eq_add_left mset_append)
  with assms [of hpool] False show ?thesis by (simp add: sampleOf_eq slice0_def)
qed

text \<open>
  Claim C4 asks for a selection that is uniform over the orders of the pool. The
  sampler shuffles with \<^verbatim>\<open>sort(() => 0.5 - Math.random())\<close>, and on V8 that is far from
  uniform. On an array of three elements the sort is the decision tree of the first
  clause: it makes two to four calls of the comparator. Of the sixteen equally likely
  sequences of four signs, six leave a pool of three highlights in its order, five
  reverse it, two swap its first two highlights, and each of the other three orders
  comes from one sequence: the probabilities are 6/16, 5/16, 2/16, 1/16, 1/16 and
  1/16, where the claim has 1/6 for each. With a display count of one the highlight
  shown is the first of the pool on seven of the sixteen sequences, the third on six
  and the second on three. The rows of the two tables are in the order of the
  sequences listed. What the claim says besides holds: whatever the signs, the sort
  returns a rearrangement of the array, so that the selection is as long as the display
  count or the pool, whichever is less, its highlights come from different places of
  the pool, and the empty pool gives the empty selection.
\<close>

theorem sampler_v8_orders:
  "v8Sort [a, b, c] =
     Call (Call (Return [c, b, a])
             (Call (Call (Return [c, b, a]) (Return [b, c, a]) (Return [b, c, a]))
                (Return [b, a, c]) (Return [b, a, c]))
             (Call (Call (Return [c, b, a]) (Return [b, c, a]) (Return [b, c, a]))
                (Return [b, a, c]) (Return [b, a, c])))
          (Call (Call (Call (Return [c, a, b]) (Return [a, c, b]) (Return [a, c, b]))
                   (Return [a, b, c]) (Return [a, b, c]))
             (Return [a, b, c]) (Return [a, b, c]))
          (Call (Call (Call (Return [c, a, b]) (Return [a, c, b]) (Return [a, c, b]))
                   (Return [a, b, c]) (Return [a, b, c]))
             (Return [a, b, c]) (Return [a, b, c])) \<and>
   map text threePool = [''one'', ''two'', ''three''] \<and>
   randomHighlightsCount demoSettings = 5 \<and>
   calls (v8Sort threePool) = 4 \<and> fewestCalls (v8Sort threePool) = 2 \<and>
   signSeqs 4 =
     [[Negative, Negative, Negative, Negative], [Positive, Negative, Negative, Negative],
      [Negative, Positive, Negative, Negative], [Positive, Positive, Negative, Negative],
      [Negative, Negative, Positive, Negative], [Positive, Negative, Positive, Negative],
      [Negative, Positive, Positive, Negative], [Positive, Positive, Positive, Negative],
      [Negative, Negative, Negative, Positive], [Positive, Negative, Negative, Positive],
      [Negative, Positive, Negative, Positive], [Positive, Positive, Negative, Positive],
      [Negative, Negative, Positive, Positive], [Positive, Negative, Positive, Positive],
      [Negative, Positive, Positive, Positive], [Positive, Positive, Positive, Positive]] \<and>
   map (map text) (selections v8Sort demoSettings threePool 4) =
     [[''three'', ''two'', ''one''], [''three'', ''one'', ''two''],
      [''three'', ''two'', ''one''], [''one'', ''two'', ''three''],
      [''three'', ''two'', ''one''], [''one'', ''two'', ''three''],
      [''two'', ''one'', ''three''], [''one'', ''two'', ''three''],
      [''three'', ''two'', ''one''], [''one'', ''three'', ''two''],
      [''two'', ''three'', ''one''], [''one'', ''two'', ''three''],
      [''three'', ''two'', ''one''], [''one'', ''two'', ''three''],
      [''two'', ''one'', ''three''], [''one'', ''two'', ''three'']] \<and>
   map (\<lambda>js. ways v8Sort demoSettings threePool 4 (map ((!) threePool) js))
     [[0, 1, 2], [2, 1, 0], [1, 0, 2], [1, 2, 0], [2, 0, 1], [0, 2, 1]] = [6, 5, 2, 1, 1, 1] \<and>
   map (map text) (selections v8Sort (demoSettings\<lparr>randomHighlightsCount := 1\<rparr>) threePool 4) =
     [[''three''], [''three''], [''three''], [''one''], [''three''], [''one''],
      [''two''], [''one''], [''three''], [''one''], [''two''], [''one''],
      [''three''], [''one''], [''two''], [''one'']] \<and>
   mset (runSort (v8Sort xs) random i) = mset xs \<and>
   length (sampleOf (\<lambda>xs. runSort (v8Sort xs) random 0) st hpool) =
     (if randomHighlightsCount st < 0 then nat (int (length hpool) + randomHighlightsCount st)
      else min (nat (randomHighlightsCount st)) (length hpool)) \<and>
   mset (sampleOf (\<lambda>xs. runSort (v8Sort xs) random 0) st hpool) \<subseteq># mset hpool \<and>
   sampleOf sortRandom st [] = []"
proof -
  have r: "mset (runSort (v8Sort ys) random 0) = mset ys" for ys :: "highlight list"
    by (rule v8Sort_rearranges)
  have n: "randomHighlightsCount demoSettings = 5" by (simp add: demoSettings_def)
  note g = v8Sort_rearranges [of xs random i]
    sample_length [of "\<lambda>xs. runSort (v8Sort xs) random 0" st hpool, OF r]
    sample_from_pool [of "\<lambda>xs. runSort (v8Sort xs) random 0" st hpool, OF r]
  from v8Sort_three [of a b c] three_texts n v8_three_calls sign_sequences v8_three_selections
    v8_three_ways v8_three_first g sample_of_empty [of sortRandom st]
  show ?thesis by (intro conjI) (simp_all only:)
qed

section \<open>The pass and what it shows: theorems\<close>

lemma drawSteps_eq:
  "drawSteps ok steps shown =
     (shown @ map the (takeWhile (stepOk ok) steps), list_all (stepOk ok) steps)"
proof (induction steps arbitrary: shown)
  case Nil
  show ?case by simp
next
  case (Cons s steps)
  show ?case
  proof (cases s)
    case None
    then show ?thesis by (simp add: stepOk_def)
  next
    case (Some e)
    with Cons.IH [of "shown @ [e]"] show ?thesis by (simp add: stepOk_def)
  qed
qed

lemma displayHighlights_none:
  "container v = None \<Longrightarrow> displayHighlights h st v = (v, True)"
  by (simp add: displayHighlights_def)

lemma displayHighlights_some:
  "container v = Some old \<Longrightarrow>
   displayHighlights h st v =
     (v\<lparr>container := Some (map the (takeWhile (stepOk (createEl h)) (displaySteps h st (highlights v))))\<rparr>,
      list_all (stepOk (createEl h)) (displaySteps h st (highlights v)))"
  by (simp add: displayHighlights_def drawSteps_eq Let_def)

lemma refresh_listing_fails:
  "getMarkdownFiles h = None \<Longrightarrow>
   refreshHighlights h st v = v\<lparr>notices := notices v @ [errorText]\<rparr>"
  by (simp add: refreshHighlights_def passFailed_def errorText_def)

lemma refresh_no_container:
  "getMarkdownFiles h = Some files \<Longrightarrow> container v = None \<Longrightarrow>
   refreshHighlights h st v = v\<lparr>highlights := pool (scanFiles h st (inFolder st files) scanStart)\<rparr>"
  by (simp add: refreshHighlights_def displayHighlights_none Let_def)

lemma refresh_drawn:
  assumes "getMarkdownFiles h = Some files" "container v = Some old"
  shows "refreshHighlights h st v =
     v\<lparr>highlights := pool (scanFiles h st (inFolder st files) scanStart),
       container := Some (map the (takeWhile (stepOk (createEl h))
          (displaySteps h st (pool (scanFiles h st (inFolder st files) scanStart))))),
       notices := notices v @
          (if list_all (stepOk (createEl h))
                (displaySteps h st (pool (scanFiles h st (inFolder st files) scanStart)))
           then [] else [errorText])\<rparr>"
proof -
  let ?found = "pool (scanFiles h st (inFolder st files) scanStart)"
  have c: "container (v\<lparr>highlights := ?found\<rparr>) = Some old" using assms(2) by simp
  show ?thesis
    using assms(1)
    by (simp add: refreshHighlights_def displayHighlights_some [OF c] Let_def passFailed_def
        errorText_def)
qed

lemma cardSteps_throw:
  "None \<in> set (cardSteps st hl) \<longleftrightarrow>
     showBookTitle st \<and> showAuthor st \<and> truthy (author hl) \<and> toStr (author hl) = None"
  by (auto simp: cardSteps_def titleSteps_def metaSteps_def authorStep_def)

lemma displaySteps_eq:
  "displaySteps h st hs =
     (if sampleOf (hostSort h) st hs = []
      then [Some (el 0 ''p'' ''no-highlights''
              (Caption (JStr ''No highlights found. Add some book highlights to your notes!'')))]
      else concat (map (cardSteps st) (sampleOf (hostSort h) st hs)))"
  by (simp add: displaySteps_def Let_def)

lemma odd_pass:
  "map text (highlights (refreshHighlights oddHost noFilter oldView)) = [''q'', ''r''] \<and>
   map author (highlights (refreshHighlights oddHost noFilter oldView)) =
     [JNull, JObj [(''toString'', JNum ''1'')]] \<and>
   notices (refreshHighlights oddHost noFilter oldView) =
     [''Error loading highlights. Check console for details.''] \<and>
   container (refreshHighlights oddHost noFilter oldView) = Some oddShown"
  by code_simp

lemma pool_scan_complete:
  "pool (scanFiles h st fs scanStart) =
     (if 0 < maxHighlights st
      then take (nat (maxHighlights st)) (concat (map (fileHighlights h st) fs))
      else concat (map (fileHighlights h st) fs))"
proof (cases "0 < maxHighlights st")
  case True
  with pool_scan_capped [of st scanStart h fs] show ?thesis by (simp add: scanStart_def)
next
  case False
  with pool_scan_unlimited [of st h fs scanStart] show ?thesis by (simp add: scanStart_def)
qed

text \<open>
  Claim C9, as stated, fails when the pass fails while the cards are drawn. The vault
  holds two notes, the second with a mapping that has an entry \<^verbatim>\<open>toString\<close> for its
  author. The scan ends and publishes both highlights; the container is emptied, the
  card of the first highlight is drawn, and the card of the second as far as its title,
  where the template literal for the author throws. The error paragraph is appended
  while the container shows one card of two and the beginning of the other: a partial
  highlight set is shown together with the message.
\<close>

theorem pass_failure_counterexample:
  "getMarkdownFiles oddHost = Some oddVault \<and>
   map text (highlights (refreshHighlights oddHost noFilter oldView)) = [''q'', ''r''] \<and>
   map author (highlights (refreshHighlights oddHost noFilter oldView)) =
     [JNull, JObj [(''toString'', JNum ''1'')]] \<and>
   toStr (JObj [(''toString'', JNum ''1'')]) = None \<and>
   notices (refreshHighlights oddHost noFilter oldView) =
     [''Error loading highlights. Check console for details.''] \<and>
   container (refreshHighlights oddHost noFilter oldView) =
     Some [el 0 ''div'' ''book-highlight-card'' NoText,
           el 1 ''h4'' ''book-title-container'' NoText,
           el 2 ''a'' ''book-title-link'' (Caption (JStr ''a'')),
           el 1 ''div'' ''highlight-text'' (Caption (JStr ''q'')),
           el 1 ''div'' ''highlight-meta'' NoText,
           el 0 ''div'' ''book-highlight-card'' NoText,
           el 1 ''h4'' ''book-title-container'' NoText,
           el 2 ''a'' ''book-title-link'' (Caption (JStr ''b''))]"
proof -
  have "getMarkdownFiles oddHost = Some oddVault" by (simp add: oddHost_def)
  moreover have "toStr (JObj [(''toString'', JNum ''1'')]) = None" by simp
  ultimately show ?thesis using odd_pass unfolding oddShown_def by blast
qed

text \<open>
  Claim C9, amended. A pass fails where listing the vault throws or where drawing
  throws; what a document throws is caught in its own round. In both cases exactly one
  paragraph with the error text is appended to the content element, and a pass that
  does not fail appends none. If listing throws, the view is otherwise as it was. If
  drawing throws, the published pool is already the pool of the finished scan, and
  the container, emptied before the first card, shows the elements that were created
  before the step that threw: the cards drawn so far stay next to the message. The
  published pool is never a partly accumulated one: after a pass it is the pool from
  before the pass or the pool of the whole scan, which is what the documents in scope
  give in order, cut at the cap if there is one. Drawing is the steps of the cards of
  the sample, or the one paragraph for an empty sample; within a card the only step of
  the view that can throw is the author, shown with title and author enabled, at an
  author that cannot be converted to a string. Without a container nothing is drawn.
\<close>

theorem pass_failure_single_message:
  "errorText = ''Error loading highlights. Check console for details.'' \<and>
   (getMarkdownFiles h = None \<longrightarrow>
      refreshHighlights h st v = v\<lparr>notices := notices v @ [errorText]\<rparr>) \<and>
   (\<forall>files. getMarkdownFiles h = Some files \<and> container v = None \<longrightarrow>
      refreshHighlights h st v =
        v\<lparr>highlights := pool (scanFiles h st (inFolder st files) scanStart)\<rparr>) \<and>
   (\<forall>files old. getMarkdownFiles h = Some files \<and> container v = Some old \<longrightarrow>
      refreshHighlights h st v =
        v\<lparr>highlights := pool (scanFiles h st (inFolder st files) scanStart),
          container := Some (map the (takeWhile (stepOk (createEl h))
             (displaySteps h st (pool (scanFiles h st (inFolder st files) scanStart))))),
          notices := notices v @
             (if list_all (stepOk (createEl h))
                   (displaySteps h st (pool (scanFiles h st (inFolder st files) scanStart)))
              then [] else [errorText])\<rparr>) \<and>
   (highlights (refreshHighlights h st v) = highlights v \<or>
    (\<exists>files. getMarkdownFiles h = Some files \<and>
       highlights (refreshHighlights h st v) = pool (scanFiles h st (inFolder st files) scanStart))) \<and>
   (notices (refreshHighlights h st v) = notices v \<or>
    notices (refreshHighlights h st v) = notices v @ [errorText]) \<and>
   displaySteps h st hs =
     (if sampleOf (hostSort h) st hs = []
      then [Some (el 0 ''p'' ''no-highlights''
              (Caption (JStr ''No highlights found. Add some book highlights to your notes!'')))]
      else concat (map (cardSteps st) (sampleOf (hostSort h) st hs))) \<and>
   (None \<in> set (cardSteps st hl) \<longleftrightarrow>
      showBookTitle st \<and> showAuthor st \<and> truthy (author hl) \<and> toStr (author hl) = None) \<and>
   pool (scanFiles h st fs scanStart) =
     (if 0 < maxHighlights st
      then take (nat (maxHighlights st)) (concat (map (fileHighlights h st) fs))
      else concat (map (fileHighlights h st) fs))"
proof -
  have a: "errorText = ''Error loading highlights. Check console for details.''"
    by (simp add: errorText_def)
  have b: "getMarkdownFiles h = None \<longrightarrow>
      refreshHighlights h st v = v\<lparr>notices := notices v @ [errorText]\<rparr>"
    using refresh_listing_fails by blast
  have c: "\<forall>files. getMarkdownFiles h = Some files \<and> container v = None \<longrightarrow>
      refreshHighlights h st v =
        v\<lparr>highlights := pool (scanFiles h st (inFolder st files) scanStart)\<rparr>"
    using refresh_no_container by blast
  have d: "\<forall>files old. getMarkdownFiles h = Some files \<and> container v = Some old \<longrightarrow>
      refreshHighlights h st v =
        v\<lparr>highlights := pool (scanFiles h st (inFolder st files) scanStart),
          container := Some (map the (takeWhile (stepOk (createEl h))
             (displaySteps h st (pool (scanFiles h st (inFolder st files) scanStart))))),
          notices := notices v @
             (if list_all (stepOk (createEl h))
                   (displaySteps h st (pool (scanFiles h st (inFolder st files) scanStart)))
              then [] else [errorText])\<rparr>"
    using refresh_drawn by blast
  have e: "highlights (refreshHighlights h st v) = highlights v \<or>
    (\<exists>files. getMarkdownFiles h = Some files \<and>
       highlights (refreshHighlights h st v) = pool (scanFiles h st (inFolder st files) scanStart))"
  proof (cases "getMarkdownFiles h")
    case None
    then show ?thesis by (simp add: refresh_listing_fails)
  next
    case (Some files)
    have "highlights (refreshHighlights h st v) = pool (scanFiles h st (inFolder st files) scanStart)"
    proof (cases "container v")
      case None
      with Some show ?thesis by (simp add: refresh_no_container)
    next
      case (Some old)
      with \<open>getMarkdownFiles h = Some files\<close> show ?thesis by (simp add: refresh_drawn)
    qed
    with Some show ?thesis by blast
  qed
  have f: "notices (refreshHighlights h st v) = notices v \<or>
    notices (refreshHighlights h st v) = notices v @ [errorText]"
  proof (cases "getMarkdownFiles h")
    case None
    then show ?thesis by (simp add: refresh_listing_fails)
  next
    case (Some files)
    show ?thesis
    proof (cases "container v")
      case None
      with Some show ?thesis by (simp add: refresh_no_container)
    next
      case (Some old)
      with \<open>getMarkdownFiles h = Some files\<close> show ?thesis by (simp add: refresh_drawn)
    qed
  qed
  from a b c d e f displaySteps_eq [of h st hs] cardSteps_throw [of st hl]
    pool_scan_complete [of h st fs]
  show ?thesis by blast
qed

theorem pass_failure_single_message_witness:
  "refreshHighlights demoHost noFilter oldView =
     oldView\<lparr>notices := [''Error loading highlights. Check console for details.'']\<rparr> \<and>
   notices (refreshHighlights oddHost noFilter oldView) =
     [''Error loading highlights. Check console for details.''] \<and>
   highlights (refreshHighlights oddHost noFilter oldView) =
     pool (scanFiles oddHost noFilter oddVault scanStart) \<and>
   length (pool (scanFiles oddHost noFilter oddVault scanStart)) = 2 \<and>
   map (\<lambda>e. (depth e, tagName e)) (the (container (refreshHighlights oddHost noFilter oldView))) =
     [(0, ''div''), (1, ''h4''), (2, ''a''), (1, ''div''), (1, ''div''), (0, ''div''), (1, ''h4''),
      (2, ''a'')] \<and>
   notices (refreshHighlights (oddHost\<lparr>getMarkdownFiles := Some corpus\<rparr>) noFilter oldView) = []"
proof -
  note T = pass_failure_single_message
  note c2 = conjunct2
  have m: "errorText = ''Error loading highlights. Check console for details.''"
    by (rule T [THEN conjunct1])
  have n: "notices oldView = []" and c: "container oldView = Some []" by (simp_all add: oldView_def)
  have g0: "getMarkdownFiles demoHost = None" by (simp add: demoHost_def)
  have g1: "getMarkdownFiles oddHost = Some oddVault" by (simp add: oddHost_def)
  have g2: "getMarkdownFiles (oddHost\<lparr>getMarkdownFiles := Some corpus\<rparr>) = Some corpus" by simp
  have f: "inFolder noFilter files = files" for files
    by (simp add: inFolder_def noFilter_def demoSettings_def)
  have 1: "refreshHighlights demoHost noFilter oldView = oldView\<lparr>notices := notices oldView @ [errorText]\<rparr>"
    by (rule T [THEN c2, THEN conjunct1, THEN mp]) (rule g0)
  have 2: "refreshHighlights oddHost noFilter oldView =
        oldView\<lparr>highlights := pool (scanFiles oddHost noFilter (inFolder noFilter oddVault) scanStart),
          container := Some (map the (takeWhile (stepOk (createEl oddHost))
             (displaySteps oddHost noFilter
                (pool (scanFiles oddHost noFilter (inFolder noFilter oddVault) scanStart))))),
          notices := notices oldView @
             (if list_all (stepOk (createEl oddHost))
                   (displaySteps oddHost noFilter
                      (pool (scanFiles oddHost noFilter (inFolder noFilter oddVault) scanStart)))
              then [] else [errorText])\<rparr>"
    by (rule T [THEN c2, THEN c2, THEN c2, THEN conjunct1, rule_format]) (use g1 c in blast)
  have 3: "refreshHighlights (oddHost\<lparr>getMarkdownFiles := Some corpus\<rparr>) noFilter oldView =
        oldView\<lparr>highlights := pool (scanFiles (oddHost\<lparr>getMarkdownFiles := Some corpus\<rparr>) noFilter
              (inFolder noFilter corpus) scanStart),
          container := Some (map the (takeWhile (stepOk (createEl (oddHost\<lparr>getMarkdownFiles := Some corpus\<rparr>)))
             (displaySteps (oddHost\<lparr>getMarkdownFiles := Some corpus\<rparr>) noFilter
                (pool (scanFiles (oddHost\<lparr>getMarkdownFiles := Some corpus\<rparr>) noFilter
                   (inFolder noFilter corpus) scanStart))))),
          notices := notices oldView @
             (if list_all (stepOk (createEl (oddHost\<lparr>getMarkdownFiles := Some corpus\<rparr>)))
                   (displaySteps (oddHost\<lparr>getMarkdownFiles := Some corpus\<rparr>) noFilter
                      (pool (scanFiles (oddHost\<lparr>getMarkdownFiles := Some corpus\<rparr>) noFilter
                         (inFolder noFilter corpus) scanStart)))
              then [] else [errorText])\<rparr>"
    by (rule T [THEN c2, THEN c2, THEN c2, THEN conjunct1, rule_format]) (use g2 c in blast)
  have s1: "\<not> list_all (stepOk (createEl oddHost))
      (displaySteps oddHost noFilter (pool (scanFiles oddHost noFilter oddVault scanStart)))"
    by code_simp
  have s2: "map (\<lambda>e. (depth e, tagName e)) (map the (takeWhile (stepOk (createEl oddHost))
      (displaySteps oddHost noFilter (pool (scanFiles oddHost noFilter oddVault scanStart))))) =
     [(0, ''div''), (1, ''h4''), (2, ''a''), (1, ''div''), (1, ''div''), (0, ''div''), (1, ''h4''),
      (2, ''a'')]"
    by code_simp
  have s3: "list_all (stepOk (createEl (oddHost\<lparr>getMarkdownFiles := Some corpus\<rparr>)))
      (displaySteps (oddHost\<lparr>getMarkdownFiles := Some corpus\<rparr>) noFilter
         (pool (scanFiles (oddHost\<lparr>getMarkdownFiles := Some corpus\<rparr>) noFilter corpus scanStart)))"
    by code_simp
  have s4: "length (pool (scanFiles oddHost noFilter oddVault scanStart)) = 2" by code_simp
  from 1 n m have A: "refreshHighlights demoHost noFilter oldView =
     oldView\<lparr>notices := [''Error loading highlights. Check console for details.'']\<rparr>" by simp
  from 2 s1 n m have B: "notices (refreshHighlights oddHost noFilter oldView) =
     [''Error loading highlights. Check console for details.'']" by (simp add: f)
  from 2 have C: "highlights (refreshHighlights oddHost noFilter oldView) =
     pool (scanFiles oddHost noFilter oddVault scanStart)" by (simp add: f)
  from 2 s2 have D: "map (\<lambda>e. (depth e, tagName e))
      (the (container (refreshHighlights oddHost noFilter oldView))) =
     [(0, ''div''), (1, ''h4''), (2, ''a''), (1, ''div''), (1, ''div''), (0, ''div''), (1, ''h4''),
      (2, ''a'')]" by (simp add: f)
  from 3 s3 n have E: "notices (refreshHighlights (oddHost\<lparr>getMarkdownFiles := Some corpus\<rparr>)
      noFilter oldView) = []" by (simp add: f)
  from A B C s4 D E show ?thesis by blast
qed

end
